theory Spec2Isabelle
  imports Main
begin

section \<open>Python strings and the character classes of the patterns\<close>

text \<open>
  A Python \<open>str\<close> is a sequence of Unicode code points, so a string is a list of
  natural numbers (the code points), not a list of bytes. The labels of the three
  capacity fields are Korean words, written here by their code points.
\<close>

type_synonym pystr = "nat list"

definition ascii :: "string \<Rightarrow> pystr" where
  "ascii s = map of_char s"

definition ch_colon :: nat where "ch_colon = 58"
definition ch_comma :: nat where "ch_comma = 44"
definition ch_L :: nat where "ch_L = 76"

text \<open>The literal prefixes of the three patterns: total capacity, fridge, freezer.\<close>

definition label_total :: pystr where
  "label_total = [52509, 50857, 47049]"

definition label_fridge :: pystr where
  "label_fridge = [45257, 51109]"

definition label_freezer :: pystr where
  "label_freezer = [45257, 46041]"

text \<open>
  In a \<open>str\<close> pattern \<open>\s\<close> matches every Unicode whitespace character and
  \<open>\d\<close> matches every Unicode decimal digit (category Nd). The decimal digits come in
  blocks of ten consecutive code points, zero first; \<open>nd_zeros\<close> lists the zero of
  each block (Unicode 14). The built-in \<open>int\<close> reads the same digits with the same
  values.
\<close>

definition space_chars :: "nat list" where
  "space_chars = [9, 10, 11, 12, 13, 28, 29, 30, 31, 32, 133, 160, 5760,
     8192, 8193, 8194, 8195, 8196, 8197, 8198, 8199, 8200, 8201, 8202,
     8232, 8233, 8239, 8287, 12288]"

definition nd_zeros :: "nat list" where
  "nd_zeros = [48, 1632, 1776, 1984, 2406, 2534, 2662, 2790, 2918, 3046, 3174,
     3302, 3430, 3558, 3664, 3792, 3872, 4160, 4240, 6112, 6160, 6470, 6608,
     6784, 6800, 6992, 7088, 7232, 7248, 42528, 43216, 43264, 43472, 43504,
     43600, 44016, 65296, 66720, 68912, 69734, 69872, 69942, 70096, 70384,
     70736, 70864, 71248, 71360, 71472, 71904, 72016, 72784, 73040, 73120,
     92768, 92864, 93008, 120782, 120792, 120802, 120812, 120822, 123200,
     123632, 125264, 130032]"

definition is_space :: "nat \<Rightarrow> bool" where
  "is_space c = (c \<in> set space_chars)"

definition digit_value :: "nat \<Rightarrow> nat option" where
  "digit_value c =
     (case find (\<lambda>z. z \<le> c \<and> c < z + 10) nd_zeros of
        None \<Rightarrow> None
      | Some z \<Rightarrow> Some (c - z))"

definition is_digit :: "nat \<Rightarrow> bool" where
  "is_digit c = (digit_value c \<noteq> None)"

section \<open>The regular expressions and their backtracking matcher\<close>

text \<open>
  Each of the three patterns has the form
  \<^verbatim>\<open>LABEL\s*:?\s*([\d,]+)\s*L\<close>, with one of the three labels for
  \<open>LABEL\<close>: a sequence of repetitions of a single-character class; a literal
  character is the repetition exactly once. The one capturing group wraps the repetition \<^verbatim>\<open>[\d,]+\<close>.
\<close>

datatype cclass = CChar nat | CSpace | CDigitComma

fun in_class :: "cclass \<Rightarrow> nat \<Rightarrow> bool" where
  "in_class (CChar a) c = (c = a)"
| "in_class CSpace c = is_space c"
| "in_class CDigitComma c = (is_digit c \<or> c = ch_comma)"

text \<open>
  \<open>Rep lo hi cls capt\<close>: between \<open>lo\<close> and \<open>hi\<close> characters of \<open>cls\<close>
  (\<open>hi = None\<close>: no upper bound), greedy; \<open>capt\<close> tells whether the repetition is
  group 1.
\<close>

datatype repetition = Rep nat "nat option" cclass bool

definition lit :: "nat \<Rightarrow> repetition" where
  "lit a = Rep 1 (Some 1) (CChar a) False"

definition star :: "cclass \<Rightarrow> repetition" where
  "star cls = Rep 0 None cls False"

definition opt :: "cclass \<Rightarrow> repetition" where
  "opt cls = Rep 0 (Some 1) cls False"

definition group_plus :: "cclass \<Rightarrow> repetition" where
  "group_plus cls = Rep 1 None cls True"

definition tail_pattern :: "repetition list" where
  "tail_pattern =
     [star CSpace, opt (CChar ch_colon), star CSpace, group_plus CDigitComma,
      star CSpace, lit ch_L]"

definition capacity_pattern :: "pystr \<Rightarrow> repetition list" where
  "capacity_pattern label = map lit label @ tail_pattern"

fun first_some :: "'a option list \<Rightarrow> 'a option" where
  "first_some [] = None"
| "first_some (None # xs) = first_some xs"
| "first_some (Some y # xs) = Some y"

definition max_count :: "nat option \<Rightarrow> cclass \<Rightarrow> pystr \<Rightarrow> nat" where
  "max_count hi cls s =
     (let n = length (takeWhile (in_class cls) s)
      in case hi of None \<Rightarrow> n | Some h \<Rightarrow> min h n)"

text \<open>
  The matcher tries, for a repetition, the longest run first and then every shorter one
  down to the lower bound, and for each the rest of the pattern on the rest of the text:
  the first success wins. The result is the text of group 1.
\<close>

fun match_items :: "repetition list \<Rightarrow> pystr \<Rightarrow> pystr option \<Rightarrow> pystr option option" where
  "match_items [] s cap = Some cap"
| "match_items (Rep lo hi cls capt # its) s cap =
     first_some
       (map (\<lambda>k. match_items its (drop k s) (if capt then Some (take k s) else cap))
            (rev [lo ..< Suc (max_count hi cls s)]))"

text \<open>
  \<open>re.search\<close> tries the start positions from left to right, the end of the text
  included, and returns the first match.
\<close>

definition re_search :: "repetition list \<Rightarrow> pystr \<Rightarrow> pystr option option" where
  "re_search pat text =
     first_some (map (\<lambda>i. match_items pat (drop i text) None) [0 ..< Suc (length text)])"

section \<open>The spec parser\<close>

datatype exn = ValueError | TimeoutException | OtherException pystr

text \<open>
  \<open>int\<close> on the strings that \<open>find_l\<close> passes to it: what is left of the group, a
  string of digits and commas, when the commas are removed. The empty string raises
  \<open>ValueError\<close>, and so does a string of more digits than the interpreter's limit on
  the conversion of a string to an integer, \<open>sys.get_int_max_str_digits()\<close>, which is
  4300 unless changed; the program does not change it. Leading zeros count. (Signs,
  underscores and surrounding whitespace, which \<open>int\<close> accepts, cannot occur in the
  group and are not modelled: such a string is an error here.)
\<close>

definition int_max_str_digits :: nat where
  "int_max_str_digits = 4300"

fun digits_value :: "nat \<Rightarrow> pystr \<Rightarrow> nat option" where
  "digits_value acc [] = Some acc"
| "digits_value acc (c # cs) =
     (case digit_value c of
        None \<Rightarrow> None
      | Some d \<Rightarrow> digits_value (10 * acc + d) cs)"

definition py_int :: "pystr \<Rightarrow> exn + int" where
  "py_int s =
     (if s = [] then Inl ValueError
      else case digits_value 0 s of
             None \<Rightarrow> Inl ValueError
           | Some n \<Rightarrow> if int_max_str_digits < length s then Inl ValueError else Inr (int n))"

definition remove_commas :: "pystr \<Rightarrow> pystr" where
  "remove_commas s = filter (\<lambda>c. c \<noteq> ch_comma) s"

text \<open>
  \<open>find_l\<close> takes the pattern as a parameter. Group 1 takes part in every match of the
  three patterns, so the case of a match without it does not arise.
\<close>

definition find_l :: "repetition list \<Rightarrow> pystr \<Rightarrow> exn + int option" where
  "find_l pat spec_text =
     (case re_search pat spec_text of
        None \<Rightarrow> Inr None
      | Some g \<Rightarrow>
          (case py_int (remove_commas (case g of None \<Rightarrow> [] | Some t \<Rightarrow> t)) of
             Inl e \<Rightarrow> Inl e
           | Inr n \<Rightarrow> Inr (Some n)))"

definition extract_capacities :: "pystr \<Rightarrow> exn + (int option \<times> int option \<times> int option)" where
  "extract_capacities spec_text =
     (case find_l (capacity_pattern label_total) spec_text of
        Inl e \<Rightarrow> Inl e
      | Inr total_l \<Rightarrow>
     (case find_l (capacity_pattern label_fridge) spec_text of
        Inl e \<Rightarrow> Inl e
      | Inr fridge_l \<Rightarrow>
     (case find_l (capacity_pattern label_freezer) spec_text of
        Inl e \<Rightarrow> Inl e
      | Inr freezer_l \<Rightarrow> Inr (total_l, fridge_l, freezer_l))))"

section \<open>A scanner without backtracking\<close>

text \<open>
  The three patterns can be read from left to right without ever going back: the
  functions below do so, and the matcher is proved to agree with them. They serve the
  proofs and the evaluation on concrete texts.
\<close>

definition starts_with :: "nat \<Rightarrow> pystr \<Rightarrow> bool" where
  "starts_with a s = (case s of [] \<Rightarrow> False | c # _ \<Rightarrow> c = a)"

definition skip_colon :: "pystr \<Rightarrow> pystr" where
  "skip_colon s = (case s of [] \<Rightarrow> [] | c # r \<Rightarrow> if c = ch_colon then r else c # r)"

definition scan_number :: "pystr \<Rightarrow> pystr option" where
  "scan_number s =
     (let g = takeWhile (in_class CDigitComma) s;
          r = dropWhile is_space (dropWhile (in_class CDigitComma) s)
      in if g \<noteq> [] \<and> starts_with ch_L r then Some g else None)"

definition scan_tail :: "pystr \<Rightarrow> pystr option" where
  "scan_tail s = scan_number (dropWhile is_space (skip_colon (dropWhile is_space s)))"

fun strip_prefix :: "pystr \<Rightarrow> pystr \<Rightarrow> pystr option" where
  "strip_prefix [] s = Some s"
| "strip_prefix (a # as) [] = None"
| "strip_prefix (a # as) (c # cs) = (if c = a then strip_prefix as cs else None)"

definition field_scan :: "pystr \<Rightarrow> pystr \<Rightarrow> pystr option" where
  "field_scan label s = (case strip_prefix label s of None \<Rightarrow> None | Some r \<Rightarrow> scan_tail r)"

fun scan_search :: "pystr \<Rightarrow> pystr \<Rightarrow> pystr option" where
  "scan_search label [] = field_scan label []"
| "scan_search label (c # cs) =
     (case field_scan label (c # cs) of Some g \<Rightarrow> Some g | None \<Rightarrow> scan_search label cs)"

definition number_pattern :: "repetition list" where
  "number_pattern = [Rep (Suc 0) None CDigitComma True, Rep 0 None CSpace False,
                Rep (Suc 0) (Some (Suc 0)) (CChar ch_L) False]"


section \<open>The item extractor\<close>

text \<open>
  A candidate item (an element matching \<open>li.prod_item.prod_layer\<close>) is seen through the
  three selections the loop makes on it: the text of the first \<open>p.prod_name > a\<close>, of the
  first \<open>div.spec_list\<close> and of the first \<open>div.prod_spec_set\<close>, each \<open>None\<close> when
  \<open>select_one\<close> finds no element. A page is the list of its candidate items in document
  order.
\<close>

record item =
  name_el :: "pystr option"
  spec_list_el :: "pystr option"
  prod_spec_set_el :: "pystr option"

type_synonym row = "pystr \<times> int \<times> int \<times> int"

text \<open>
  The loop over the items, with the accumulator \<open>results\<close>. An exception of
  \<open>extract_capacities\<close> leaves the loop and the function.
\<close>

fun parse_items :: "item list \<Rightarrow> row list \<Rightarrow> exn + row list" where
  "parse_items [] results = Inr results"
| "parse_items (it # items) results =
     (case name_el it of
        None \<Rightarrow> parse_items items results
      | Some name \<Rightarrow>
          (case (case spec_list_el it of None \<Rightarrow> prod_spec_set_el it | Some t \<Rightarrow> Some t) of
             None \<Rightarrow> parse_items items results
           | Some spec_text \<Rightarrow>
               (case extract_capacities spec_text of
                  Inl e \<Rightarrow> Inl e
                | Inr (total_l, fridge_l, freezer_l) \<Rightarrow>
                    if total_l = None \<or> fridge_l = None \<or> freezer_l = None
                    then parse_items items results
                    else parse_items items
                           (results @ [(name, the total_l, the freezer_l, the fridge_l)]))))"

section \<open>The browser, the file and the trace of calls\<close>

text \<open>
  Every call on the browser driver or on the output file is recorded in a trace. What a
  call returns is decided by the environment, a function of the trace up to and including
  the call; a call may raise. \<open>print\<close> and \<open>time.sleep\<close> are left out.
\<close>

datatype locator = XPath pystr | CssSelector pystr

type_synonym element = nat

datatype cell = CStr pystr | CInt int

datatype call =
    Install
  | NewChrome "pystr list"
  | ImplicitlyWait nat
  | Get pystr
  | PageSource
  | WaitClickable nat locator
  | ExecuteScript pystr element
  | GetAttribute element pystr
  | Quit
  | OpenFile pystr pystr pystr pystr
  | WriteRow "cell list"
  | WriteRows "cell list list"
  | CloseFile

record env =
  do_call :: "call list \<Rightarrow> exn option"
  page_items :: "call list \<Rightarrow> exn + item list"
  clickable :: "call list \<Rightarrow> exn + element"
  attribute :: "call list \<Rightarrow> exn + pystr option"

type_synonym 'a prog = "call list \<Rightarrow> (exn + 'a) \<times> call list"

definition return :: "'a \<Rightarrow> 'a prog" where
  "return x tr = (Inr x, tr)"

definition bind :: "'a prog \<Rightarrow> ('a \<Rightarrow> 'b prog) \<Rightarrow> 'b prog" where
  "bind m f tr = (case m tr of (Inl x, tr') \<Rightarrow> (Inl x, tr') | (Inr v, tr') \<Rightarrow> f v tr')"

text \<open>\<open>try: m except TimeoutException: h\<close>\<close>

definition try_timeout :: "'a prog \<Rightarrow> 'a prog \<Rightarrow> 'a prog" where
  "try_timeout m h tr =
     (case m tr of
        (Inl TimeoutException, tr') \<Rightarrow> h tr'
      | (Inl x, tr') \<Rightarrow> (Inl x, tr')
      | (Inr v, tr') \<Rightarrow> (Inr v, tr'))"

definition perform :: "env \<Rightarrow> call \<Rightarrow> unit prog" where
  "perform e c tr =
     (case do_call e (tr @ [c]) of None \<Rightarrow> (Inr (), tr @ [c]) | Some x \<Rightarrow> (Inl x, tr @ [c]))"

definition read_page :: "env \<Rightarrow> (item list) prog" where
  "read_page e tr = (page_items e (tr @ [PageSource]), tr @ [PageSource])"

definition wait_clickable :: "env \<Rightarrow> nat \<Rightarrow> locator \<Rightarrow> element prog" where
  "wait_clickable e secs loc tr =
     (clickable e (tr @ [WaitClickable secs loc]), tr @ [WaitClickable secs loc])"

definition get_attribute :: "env \<Rightarrow> element \<Rightarrow> pystr \<Rightarrow> (pystr option) prog" where
  "get_attribute e el a tr =
     (attribute e (tr @ [GetAttribute el a]), tr @ [GetAttribute el a])"

definition parse_current_page :: "env \<Rightarrow> (row list) prog" where
  "parse_current_page e =
     bind (read_page e) (\<lambda>items tr. (parse_items items [], tr))"

section \<open>The pagination advancer\<close>

text \<open>\<open>str\<close> of an integer: decimal, with a minus sign for a negative number.\<close>

fun nat_digits :: "nat \<Rightarrow> pystr" where
  "nat_digits n = (if n < 10 then [48 + n] else nat_digits (n div 10) @ [48 + n mod 10])"

declare nat_digits.simps [simp del]

definition str_int :: "int \<Rightarrow> pystr" where
  "str_int i = (if i < 0 then 45 # nat_digits (nat (- i)) else nat_digits (nat i))"

text \<open>\<open>sub in s\<close> for strings.\<close>

fun contains :: "pystr \<Rightarrow> pystr \<Rightarrow> bool" where
  "contains sub [] = (sub = [])"
| "contains sub (c # cs) = (take (length sub) (c # cs) = sub \<or> contains sub cs)"

definition xpath_num :: "pystr \<Rightarrow> pystr" where
  \<open>xpath_num next_str =
     ascii ''//a[contains(@class, "num") and normalize-space()="'' @ next_str @ ascii ''"]''\<close>

definition scroll_script :: pystr where
  "scroll_script = ascii ''arguments[0].scrollIntoView(true);''"

definition click_script :: pystr where
  "click_script = ascii ''arguments[0].click();''"

definition click_element :: "env \<Rightarrow> element \<Rightarrow> bool prog" where
  "click_element e el =
     bind (perform e (ExecuteScript scroll_script el)) (\<lambda>_.
     bind (perform e (ExecuteScript click_script el)) (\<lambda>_.
     return True))"

text \<open>The body of the first \<open>try\<close>: the link with the number of the next page.\<close>

definition numbered_link :: "env \<Rightarrow> int \<Rightarrow> bool prog" where
  "numbered_link e current_page =
     (let next_num = current_page + 1;
          next_str = str_int next_num
      in bind (wait_clickable e 3 (XPath (xpath_num next_str))) (click_element e))"

text \<open>
  The body of the second \<open>try\<close>: the next-page button. \<open>get_attribute("class") or ""\<close>
  is the empty string for \<open>None\<close>.
\<close>

definition next_button :: "env \<Rightarrow> bool prog" where
  "next_button e =
     bind (wait_clickable e 3 (CssSelector (ascii ''a.edge_nav.nav_next''))) (\<lambda>next_btn.
     bind (get_attribute e next_btn (ascii ''class'')) (\<lambda>a.
       let class_attr = (case a of None \<Rightarrow> [] | Some v \<Rightarrow> v)
       in if contains (ascii ''disabled'') class_attr \<or> contains (ascii ''off'') class_attr
          then return False
          else click_element e next_btn))"

definition go_to_next_page :: "env \<Rightarrow> int \<Rightarrow> bool prog" where
  "go_to_next_page e current_page =
     try_timeout (numbered_link e current_page) (try_timeout (next_button e) (return False))"

section \<open>The crawl loop and the result sink\<close>

definition START_URL :: pystr where
  "START_URL = ascii ''https://prod.danawa.com/list/?cate=102110''"

definition OUTPUT_CSV :: pystr where
  "OUTPUT_CSV = ascii ''danawa_fridge_capacity.csv''"

definition MAX_PAGES :: int where
  "MAX_PAGES = 200"

function crawl_loop :: "env \<Rightarrow> int \<Rightarrow> row list \<Rightarrow> (row list) prog" where
  "crawl_loop e current_page all_rows tr =
     (if current_page \<le> MAX_PAGES then
        (case parse_current_page e tr of
           (Inl x, tr1) \<Rightarrow> (Inl x, tr1)
         | (Inr page_rows, tr1) \<Rightarrow>
             (case go_to_next_page e current_page tr1 of
                (Inl x, tr2) \<Rightarrow> (Inl x, tr2)
              | (Inr ok, tr2) \<Rightarrow>
                  if \<not> ok then (Inr (all_rows @ page_rows), tr2)
                  else crawl_loop e (current_page + 1) (all_rows @ page_rows) tr2))
      else (Inr all_rows, tr))"
  by pat_completeness auto
termination
  by (relation "measure (\<lambda>(e, current_page, all_rows, tr). nat (MAX_PAGES + 1 - current_page))")
     auto

declare crawl_loop.simps [simp del]

definition header :: "cell list" where
  "header = [CStr [51228, 54408, 47749], CStr [52509, 50857, 47049, 40, 76, 41],
             CStr [45257, 46041, 40, 76, 41], CStr [45257, 51109, 40, 76, 41]]"

definition row_cells :: "row \<Rightarrow> cell list" where
  "row_cells r = (case r of (name, total_l, freezer_l, fridge_l) \<Rightarrow>
                    [CStr name, CInt total_l, CInt freezer_l, CInt fridge_l])"

text \<open>
  The \<open>with open(...) as f\<close> block: the file is closed when the block is left, also by an
  exception; an exception of the closing replaces the one of the block.
\<close>

definition with_file :: "env \<Rightarrow> call \<Rightarrow> unit prog \<Rightarrow> unit prog" where
  "with_file e opn body =
     bind (perform e opn) (\<lambda>_ tr.
       case body tr of (r, tr') \<Rightarrow>
         (case perform e CloseFile tr' of
            (Inl x, tr'') \<Rightarrow> (Inl x, tr'')
          | (Inr _, tr'') \<Rightarrow> (r, tr'')))"

definition write_csv :: "env \<Rightarrow> row list \<Rightarrow> unit prog" where
  "write_csv e all_rows =
     with_file e (OpenFile OUTPUT_CSV (ascii ''w'') [] (ascii ''utf-8-sig''))
       (bind (perform e (WriteRow header)) (\<lambda>_.
        perform e (WriteRows (map row_cells all_rows))))"

definition main :: "env \<Rightarrow> unit prog" where
  "main e =
     bind (perform e Install) (\<lambda>_.
     bind (perform e (NewChrome [ascii ''--headless=new'', ascii ''--window-size=1920,1080''])) (\<lambda>_.
     bind (perform e (ImplicitlyWait 5)) (\<lambda>_.
     bind (perform e (Get START_URL)) (\<lambda>_.
     bind (crawl_loop e 1 []) (\<lambda>all_rows.
     bind (perform e Quit) (\<lambda>_.
     write_csv e all_rows))))))"

section \<open>The vocabulary of the claims about the spec parser\<close>

text \<open>
  These definitions say in terms of the text alone, without the matcher, what the claims
  speak of. \<open>labeled_field label num s\<close>: \<open>s\<close> begins with the field of \<open>label\<close> whose
  number part is \<open>num\<close>: the label, an optional colon with optional whitespace around
  it, the digits and commas \<open>num\<close>, optional whitespace and the letter \<open>L\<close>.
\<close>

definition labeled_field :: "pystr \<Rightarrow> pystr \<Rightarrow> pystr \<Rightarrow> bool" where
  "labeled_field label num s \<longleftrightarrow>
     (\<exists>ws1 c ws2 ws3 post.
        s = label @ ws1 @ c @ ws2 @ num @ ws3 @ ch_L # post \<and>
        list_all is_space ws1 \<and> (c = [] \<or> c = [ch_colon]) \<and> list_all is_space ws2 \<and>
        num \<noteq> [] \<and> list_all (in_class CDigitComma) num \<and> list_all is_space ws3)"

text \<open>
  \<open>first_field label num spec_text\<close>: the leftmost field of \<open>label\<close> in the text has the
  number part \<open>num\<close>: a field with \<open>num\<close> begins after \<open>pre\<close>, and no field of the label
  begins inside \<open>pre\<close>.
\<close>

definition first_field :: "pystr \<Rightarrow> pystr \<Rightarrow> pystr \<Rightarrow> bool" where
  "first_field label num spec_text \<longleftrightarrow>
     (\<exists>pre s. spec_text = pre @ s \<and> labeled_field label num s \<and>
        (\<forall>p q n. pre = p @ q \<and> q \<noteq> [] \<longrightarrow> \<not> labeled_field label n (q @ s)))"

text \<open>The label occurs somewhere in the text.\<close>

definition occurs :: "pystr \<Rightarrow> pystr \<Rightarrow> bool" where
  "occurs label s \<longleftrightarrow> (\<exists>pre post. s = pre @ label @ post)"

definition has_digit :: "pystr \<Rightarrow> bool" where
  "has_digit num \<longleftrightarrow> list_ex is_digit num"

text \<open>The number of digits of \<open>num\<close>, the commas not counted.\<close>

definition digit_count :: "pystr \<Rightarrow> nat" where
  "digit_count num = length (filter is_digit num)"

text \<open>
  \<open>contains_field label num s\<close>: somewhere in the text a field of \<open>label\<close> with the
  number part \<open>num\<close> begins.
\<close>

definition contains_field :: "pystr \<Rightarrow> pystr \<Rightarrow> pystr \<Rightarrow> bool" where
  "contains_field label num s \<longleftrightarrow> (\<exists>pre rest. s = pre @ rest \<and> labeled_field label num rest)"

text \<open>The integer that the digits of \<open>num\<close> write in base ten, the commas skipped.\<close>

definition number_of :: "pystr \<Rightarrow> int" where
  "number_of num = int (foldl (\<lambda>a c. 10 * a + the (digit_value c)) 0 (filter is_digit num))"

section \<open>The vocabulary of the claims about the item extractor\<close>

text \<open>The spec block of a candidate: the primary selection, else the secondary one.\<close>

definition chosen_spec :: "item \<Rightarrow> pystr option" where
  "chosen_spec it = (case spec_list_el it of None \<Rightarrow> prod_spec_set_el it | Some t \<Rightarrow> Some t)"

text \<open>
  The rows a candidate may contribute: one row, in the order name, total, freezer, fridge,
  when it has a name and a spec block in which all three fields are found; none otherwise.
\<close>

definition emitted :: "item \<Rightarrow> row list" where
  "emitted it =
     (case (name_el it, chosen_spec it) of
        (Some name, Some spec_text) \<Rightarrow>
          (case extract_capacities spec_text of
             Inr (Some total_l, Some fridge_l, Some freezer_l) \<Rightarrow>
               [(name, total_l, freezer_l, fridge_l)]
           | _ \<Rightarrow> [])
      | _ \<Rightarrow> [])"

text \<open>
  What a candidate and a page are to give, said without the accumulator: a candidate
  without a name or without a spec block gives no row; otherwise the text of its spec
  block is parsed, an exception of the parser is the outcome, and there is one row when
  all three fields are present, none otherwise. A page gives the rows of its candidates
  in order, up to the first exception.
\<close>

definition spec_item_outcome :: "item \<Rightarrow> exn + row list" where
  "spec_item_outcome it =
     (case name_el it of
        None \<Rightarrow> Inr []
      | Some name \<Rightarrow>
          (case chosen_spec it of
             None \<Rightarrow> Inr []
           | Some spec_text \<Rightarrow>
               (case extract_capacities spec_text of
                  Inl x \<Rightarrow> Inl x
                | Inr (Some total_l, Some fridge_l, Some freezer_l) \<Rightarrow>
                    Inr [(name, total_l, freezer_l, fridge_l)]
                | Inr _ \<Rightarrow> Inr [])))"

fun spec_page_outcome :: "item list \<Rightarrow> exn + row list" where
  "spec_page_outcome [] = Inr []"
| "spec_page_outcome (it # items) =
     (case spec_item_outcome it of
        Inl x \<Rightarrow> Inl x
      | Inr r \<Rightarrow> (case spec_page_outcome items of Inl x \<Rightarrow> Inl x | Inr rs \<Rightarrow> Inr (r @ rs)))"

section \<open>Example environments\<close>

text \<open>
  A browser that shows the given candidate items on every page and has no navigation
  control: every wait for a clickable element times out. No call fails.
\<close>

definition page_env :: "item list \<Rightarrow> env" where
  "page_env items =
     \<lparr>do_call = (\<lambda>_. None), page_items = (\<lambda>_. Inr items),
      clickable = (\<lambda>_. Inl TimeoutException), attribute = (\<lambda>_. Inr None)\<rparr>"

definition spec_870_503_367 :: pystr where
  "spec_870_503_367 =
     label_total @ ascii '': 870L/'' @ label_fridge @ ascii '': 503L/'' @
     label_freezer @ ascii '': 367L/''"

definition spec_no_freezer :: pystr where
  "spec_no_freezer = label_total @ ascii '': 870L/'' @ label_fridge @ ascii '': 503L/''"

definition spec_digit_free :: pystr where
  "spec_digit_free = label_total @ ascii '': ,L''"



text \<open>
  Spec texts on which the claims about the parser are tried: a digit-free field of the
  total capacity before the three proper fields; the same before two proper fields; and
  a text whose total capacity has 4301 digits; and a text in which the fridge label
  occurs only inside a longer word.
\<close>

definition spec_digit_free_first :: pystr where
  "spec_digit_free_first =
     label_total @ ascii '': ,L/'' @ label_total @ ascii '': 1,234L/'' @
     label_fridge @ ascii '': 503L/'' @ label_freezer @ ascii '': 367L/''"

definition spec_digit_free_no_freezer :: pystr where
  "spec_digit_free_no_freezer =
     label_total @ ascii '': ,L/'' @ label_total @ ascii '': 870L/'' @
     label_fridge @ ascii '': 503L/''"

definition spec_long_number :: pystr where
  "spec_long_number =
     label_total @ ascii '': '' @ replicate 4301 49 @ ascii ''L/'' @
     label_fridge @ ascii '': 503L/'' @ label_freezer @ ascii '': 367L/''"

definition spec_fridge_word :: pystr where
  "spec_fridge_word =
     label_total @ ascii '': 870L/'' @ label_fridge @ [44256] @ ascii '' 3door/''"

definition bad_item :: item where
  "bad_item =
     \<lparr>name_el = Some (ascii ''X''), spec_list_el = Some spec_digit_free,
      prod_spec_set_el = None\<rparr>"



section \<open>The calls a program adds to the trace\<close>

text \<open>
  \<open>emits S p\<close>: from every trace the program \<open>p\<close> leaves the trace it started with,
  extended by calls of the set \<open>S\<close> only.
\<close>

definition emits :: "call set \<Rightarrow> 'a prog \<Rightarrow> bool" where
  "emits S p \<longleftrightarrow> (\<forall>tr. \<exists>new. snd (p tr) = tr @ new \<and> set new \<subseteq> S)"















text \<open>The rows of a page that was read: those of its complete candidates, in order.\<close>

definition page_rows :: "exn + item list \<Rightarrow> row list" where
  "page_rows p = (case p of Inl _ \<Rightarrow> [] | Inr items \<Rightarrow> concat (map emitted items))"


section \<open>The matcher agrees with the scanner\<close>

lemma first_some_None_iff: "first_some xs = None \<longleftrightarrow> (\<forall>x\<in>set xs. x = None)"
  by (induction xs rule: first_some.induct) auto

lemma first_some_upt:
  assumes "lo \<le> n" and "\<And>k. lo \<le> k \<Longrightarrow> k < n \<Longrightarrow> f k = None \<or> f k = f n"
  shows "first_some (map f (rev [lo..<Suc n])) = f n"
proof (cases "f n")
  case None
  with assms(2) have "\<forall>x\<in>set (map f (rev [lo..<Suc n])). x = None"
    by (auto simp: less_Suc_eq)
  then show ?thesis using None by (simp only: first_some_None_iff[symmetric])
next
  case (Some y)
  with assms(1) show ?thesis by simp
qed

lemma first_some_upt_empty: "n < lo \<Longrightarrow> first_some (map f (rev [lo..<Suc n])) = None"
  by simp

lemma drop_in_run:
  assumes "k < length (takeWhile P s)"
  shows "\<exists>c r. drop k s = c # r \<and> P c"
proof -
  have kl: "k < length s" using assms length_takeWhile_le[of P s] by (meson less_le_trans)
  have "takeWhile P s ! k \<in> set (takeWhile P s)" using assms by simp
  then have "P (takeWhile P s ! k)" by (auto dest: set_takeWhileD)
  then have "P (s ! k)" using assms by (simp add: takeWhile_nth)
  moreover have "drop k s = s ! k # drop (Suc k) s" using kl by (simp add: Cons_nth_drop_Suc)
  ultimately show ?thesis by blast
qed

lemma not_space_colon: "\<not> is_space ch_colon" by (simp add: is_space_def space_chars_def ch_colon_def)
lemma not_space_L: "\<not> is_space ch_L" by (simp add: is_space_def space_chars_def ch_L_def)
lemma not_space_comma: "\<not> is_space ch_comma" by (simp add: is_space_def space_chars_def ch_comma_def)
lemma not_digit_colon: "\<not> is_digit ch_colon" by (simp add: is_digit_def digit_value_def nd_zeros_def ch_colon_def)
lemma not_digit_L: "\<not> is_digit ch_L" by (simp add: is_digit_def digit_value_def nd_zeros_def ch_L_def)
lemma not_digit_comma: "\<not> is_digit ch_comma" by (simp add: is_digit_def digit_value_def nd_zeros_def ch_comma_def)

lemma ch_distinct: "ch_L \<noteq> ch_comma" "ch_colon \<noteq> ch_comma" "ch_colon \<noteq> ch_L"
  by (simp_all add: ch_L_def ch_comma_def ch_colon_def)

lemma digit_not_space: "is_digit c \<Longrightarrow> \<not> is_space c"
  unfolding is_space_def space_chars_def
  by (auto simp: is_digit_def digit_value_def nd_zeros_def)


lemma first_some_single: "first_some [x] = x"
  by (cases x) simp_all

declare match_items.simps(2) [simp del]

lemma match_lit:
  "match_items (Rep (Suc 0) (Some (Suc 0)) (CChar a) False # its) s cap =
     (case s of [] \<Rightarrow> None | c # r \<Rightarrow> if c = a then match_items its r cap else None)"
proof (cases s)
  case Nil
  then show ?thesis by (simp add: match_items.simps(2) max_count_def)
next
  case (Cons c r)
  then show ?thesis
    by (cases "c = a") (simp_all add: match_items.simps(2) max_count_def first_some_single)
qed

lemma match_star:
  assumes "\<And>k. k < length (takeWhile (in_class cls) s) \<Longrightarrow>
             match_items its (drop k s) cap = None \<or>
             match_items its (drop k s) cap = match_items its (dropWhile (in_class cls) s) cap"
  shows "match_items (Rep 0 None cls False # its) s cap =
           match_items its (dropWhile (in_class cls) s) cap"
proof -
  let ?n = "length (takeWhile (in_class cls) s)"
  let ?f = "\<lambda>k. match_items its (drop k s) cap"
  have "first_some (map ?f (rev [0..<Suc ?n])) = ?f ?n"
    by (rule first_some_upt) (use assms in \<open>auto simp: dropWhile_eq_drop[symmetric]\<close>)
  then show ?thesis by (simp add: match_items.simps(2) max_count_def dropWhile_eq_drop[symmetric])
qed

lemma in_class_space: "in_class CSpace = is_space"
  by (rule ext) simp

lemma match_end:
  "match_items [Rep 0 None CSpace False, Rep (Suc 0) (Some (Suc 0)) (CChar ch_L) False] s cap =
     (if starts_with ch_L (dropWhile is_space s) then Some cap else None)"
proof -
  let ?l = "[Rep (Suc 0) (Some (Suc 0)) (CChar ch_L) False]"
  have "match_items (Rep 0 None CSpace False # ?l) s cap =
        match_items ?l (dropWhile (in_class CSpace) s) cap"
  proof (rule match_star)
    fix k assume "k < length (takeWhile (in_class CSpace) s)"
    then obtain c r where "drop k s = c # r" "in_class CSpace c" using drop_in_run by blast
    then show "match_items ?l (drop k s) cap = None \<or>
       match_items ?l (drop k s) cap = match_items ?l (dropWhile (in_class CSpace) s) cap"
      using not_space_L by (auto simp: match_lit)
  qed
  then have e: "match_items (Rep 0 None CSpace False # ?l) s cap =
        match_items ?l (dropWhile is_space s) cap"
    by (simp only: in_class_space)
  show ?thesis
  proof (cases "dropWhile is_space s")
    case Nil
    show ?thesis unfolding e Nil by (simp add: match_lit starts_with_def)
  next
    case (Cons c r)
    show ?thesis unfolding e Cons by (simp add: match_lit starts_with_def)
  qed
qed

lemma match_number:
  "match_items [Rep (Suc 0) None CDigitComma True, Rep 0 None CSpace False,
                Rep (Suc 0) (Some (Suc 0)) (CChar ch_L) False] s cap =
     map_option Some (scan_number s)"
proof -
  let ?P = "in_class CDigitComma"
  let ?rest = "[Rep 0 None CSpace False, Rep (Suc 0) (Some (Suc 0)) (CChar ch_L) False]"
  let ?f = "\<lambda>k. match_items ?rest (drop k s) (if True then Some (take k s) else cap)"
  define n where "n = length (takeWhile ?P s)"
  have lhs: "match_items (Rep (Suc 0) None CDigitComma True # ?rest) s cap =
             first_some (map ?f (rev [Suc 0..<Suc n]))"
    by (simp add: match_items.simps(2) max_count_def n_def)
  show ?thesis
  proof (cases "n = 0")
    case True
    then have "takeWhile ?P s = []" by (simp add: n_def)
    then have "scan_number s = None" by (simp only: scan_number_def Let_def) simp
    then show ?thesis using True by (simp add: lhs)
  next
    case False
    then have ne: "takeWhile ?P s \<noteq> []" by (auto simp: n_def)
    have fail: "?f k = None" if "k < n" for k
    proof -
      from that obtain c r where d: "drop k s = c # r" "?P c"
        using drop_in_run unfolding n_def by blast
      then have "\<not> is_space c" "c \<noteq> ch_L"
        using digit_not_space not_space_comma not_digit_L ch_distinct by auto
      with d show ?thesis by (simp add: match_end starts_with_def)
    qed
    have "first_some (map ?f (rev [Suc 0..<Suc n])) = ?f n"
      by (rule first_some_upt) (use False fail in auto)
    moreover have "drop n s = dropWhile ?P s" "take n s = takeWhile ?P s"
      unfolding n_def by (simp_all add: dropWhile_eq_drop[symmetric] takeWhile_eq_take[symmetric])
    ultimately show ?thesis using ne
      by (simp add: lhs match_end scan_number_def)
  qed
qed


lemma dropWhile_drop_run:
  assumes "k \<le> length (takeWhile P s)"
  shows "dropWhile P (drop k s) = dropWhile P s"
proof -
  have "drop k s = drop k (takeWhile P s @ dropWhile P s)" by simp
  also have "\<dots> = drop k (takeWhile P s) @ dropWhile P s"
    using assms unfolding drop_append by simp
  finally have "dropWhile P (drop k s) = dropWhile P (drop k (takeWhile P s) @ dropWhile P s)"
    by simp
  also have "\<dots> = dropWhile P (dropWhile P s)"
    by (rule dropWhile_append2) (auto dest: in_set_dropD set_takeWhileD)
  finally show ?thesis by simp
qed

lemma scan_number_not_dc:
  "\<not> in_class CDigitComma c \<Longrightarrow> scan_number (c # r) = None"
  by (simp add: scan_number_def)

lemma space_not_dc: "is_space c \<Longrightarrow> \<not> in_class CDigitComma c"
  using digit_not_space not_space_comma by auto

lemma colon_not_dc: "\<not> in_class CDigitComma ch_colon"
  using not_digit_colon ch_distinct by simp


lemma match_spaces_number:
  "match_items (Rep 0 None CSpace False # number_pattern) s cap =
     map_option Some (scan_number (dropWhile is_space s))"
proof -
  have "match_items (Rep 0 None CSpace False # number_pattern) s cap =
        match_items number_pattern (dropWhile (in_class CSpace) s) cap"
  proof (rule match_star)
    fix k assume "k < length (takeWhile (in_class CSpace) s)"
    then obtain c r where d: "drop k s = c # r" "in_class CSpace c" using drop_in_run by blast
    then have "scan_number (c # r) = None"
      by (metis in_class.simps(2) space_not_dc scan_number_not_dc)
    with d have "match_items number_pattern (drop k s) cap = None"
      by (simp add: number_pattern_def match_number)
    then show "match_items number_pattern (drop k s) cap = None \<or>
       match_items number_pattern (drop k s) cap =
       match_items number_pattern (dropWhile (in_class CSpace) s) cap" by simp
  qed
  then show ?thesis by (simp add: in_class_space number_pattern_def match_number)
qed

lemma skip_colon_id: "\<not> starts_with ch_colon t \<Longrightarrow> skip_colon t = t"
  by (cases t) (auto simp: skip_colon_def starts_with_def)

lemma starts_withD: "starts_with a t \<Longrightarrow> \<exists>r. t = a # r"
  by (cases t) (auto simp: starts_with_def)

lemma match_colon_spaces_number:
  "match_items (Rep 0 (Some (Suc 0)) (CChar ch_colon) False #
                Rep 0 None CSpace False # number_pattern) s cap =
     map_option Some (scan_number (dropWhile is_space (skip_colon s)))"
proof -
  let ?rest = "Rep 0 None CSpace False # number_pattern"
  let ?f = "\<lambda>k. match_items ?rest (drop k s) cap"
  have lhs: "match_items (Rep 0 (Some (Suc 0)) (CChar ch_colon) False # ?rest) s cap =
      first_some (map ?f (rev [0..<Suc (max_count (Some (Suc 0)) (CChar ch_colon) s)]))"
    by (subst match_items.simps(2)) simp
  show ?thesis
  proof (cases "starts_with ch_colon s")
    case True
    then obtain r where s: "s = ch_colon # r" by (auto simp: starts_with_def split: list.splits)
    have m: "max_count (Some (Suc 0)) (CChar ch_colon) s = Suc 0"
      by (simp add: max_count_def s)
    have "scan_number (dropWhile is_space (ch_colon # r)) = None"
      using not_space_colon colon_not_dc scan_number_not_dc by simp
    then have "?f 0 = None"
      by (simp add: s match_spaces_number)
    then have "first_some (map ?f (rev [0..<Suc (Suc 0)])) = ?f (Suc 0)"
      by (intro first_some_upt) (auto simp: less_Suc_eq)
    then have "match_items (Rep 0 (Some (Suc 0)) (CChar ch_colon) False # ?rest) s cap = ?f (Suc 0)"
      by (simp only: lhs m)
    then show ?thesis
      by (simp add: match_spaces_number s skip_colon_def)
  next
    case False
    then have m: "max_count (Some (Suc 0)) (CChar ch_colon) s = 0"
      by (cases s) (auto simp: max_count_def starts_with_def)
    from False have sk: "skip_colon s = s" by (rule skip_colon_id)
    have "match_items (Rep 0 (Some (Suc 0)) (CChar ch_colon) False # ?rest) s cap = ?f 0"
      by (simp add: lhs m first_some_single)
    then show ?thesis
      by (simp add: match_spaces_number sk)
  qed
qed

lemma match_tail:
  "match_items (Rep 0 None CSpace False # Rep 0 (Some (Suc 0)) (CChar ch_colon) False #
                Rep 0 None CSpace False # number_pattern) s cap =
     map_option Some (scan_tail s)"
proof -
  let ?rest = "Rep 0 (Some (Suc 0)) (CChar ch_colon) False #
                Rep 0 None CSpace False # number_pattern"
  let ?d = "dropWhile is_space s"
  have "match_items (Rep 0 None CSpace False # ?rest) s cap =
        match_items ?rest (dropWhile (in_class CSpace) s) cap"
  proof (rule match_star)
    fix k assume k: "k < length (takeWhile (in_class CSpace) s)"
    then obtain c r where d: "drop k s = c # r" "is_space c" using drop_in_run by fastforce
    then have "c \<noteq> ch_colon" using not_space_colon by auto
    then have "skip_colon (drop k s) = drop k s" by (simp add: d skip_colon_def)
    moreover have "dropWhile is_space (drop k s) = ?d"
      using k dropWhile_drop_run[of k is_space s] by (simp add: in_class_space)
    ultimately have fk: "match_items ?rest (drop k s) cap = map_option Some (scan_number ?d)"
      by (simp add: match_colon_spaces_number)
    have "scan_number ?d = None \<or> scan_number ?d = scan_number (dropWhile is_space (skip_colon ?d))"
    proof (cases "starts_with ch_colon ?d")
      case True
      then obtain r' where "?d = ch_colon # r'" using starts_withD by blast
      then show ?thesis using colon_not_dc by (simp add: scan_number_not_dc)
    next
      case False
      then have "skip_colon ?d = ?d" by (rule skip_colon_id)
      then show ?thesis by simp
    qed
    moreover have "match_items ?rest (dropWhile (in_class CSpace) s) cap =
        map_option Some (scan_number (dropWhile is_space (skip_colon ?d)))"
      by (simp add: match_colon_spaces_number in_class_space)
    ultimately show "match_items ?rest (drop k s) cap = None \<or>
       match_items ?rest (drop k s) cap =
       match_items ?rest (dropWhile (in_class CSpace) s) cap"
      unfolding fk by auto
  qed
  then show ?thesis
    by (simp add: in_class_space match_colon_spaces_number scan_tail_def)
qed

section \<open>The search agrees with the scanner\<close>

lemma match_literals:
  "match_items (map lit label @ its) s cap =
     (case strip_prefix label s of None \<Rightarrow> None | Some r \<Rightarrow> match_items its r cap)"
proof (induction label s rule: strip_prefix.induct)
  case (1 s)
  show ?case by simp
next
  case (2 a as)
  show ?case by (simp add: lit_def match_lit)
next
  case (3 a as c cs)
  then show ?case by (simp add: lit_def match_lit)
qed

lemma tail_pattern_unfold:
  "tail_pattern = Rep 0 None CSpace False # Rep 0 (Some (Suc 0)) (CChar ch_colon) False #
                Rep 0 None CSpace False # number_pattern"
  by (simp add: tail_pattern_def number_pattern_def star_def opt_def group_plus_def lit_def)

lemma match_capacity_pattern:
  "match_items (capacity_pattern label) s cap = map_option Some (field_scan label s)"
  by (simp add: capacity_pattern_def match_literals field_scan_def tail_pattern_unfold match_tail
           split: option.splits)

lemma first_some_positions:
  "first_some (map (\<lambda>i. F (drop i s)) [0..<Suc (length s)]) =
     (case s of
        [] \<Rightarrow> F []
      | c # cs \<Rightarrow> (case F (c # cs) of
                    Some y \<Rightarrow> Some y
                  | None \<Rightarrow> first_some (map (\<lambda>i. F (drop i cs)) [0..<Suc (length cs)])))"
proof (cases s)
  case Nil
  then show ?thesis by (simp add: first_some_single)
next
  case (Cons c cs)
  have "[0..<Suc (length (c # cs))] = 0 # [Suc 0..<Suc (length (c # cs))]"
    by (rule upt_conv_Cons) simp
  also have "[Suc 0..<Suc (length (c # cs))] = map Suc [0..<Suc (length cs)]"
    by (simp add: map_Suc_upt del: upt_Suc)
  finally have u: "[0..<Suc (length (c # cs))] = 0 # map Suc [0..<Suc (length cs)]" .
  have m: "map (\<lambda>i. F (drop i (c # cs))) [0..<Suc (length (c # cs))] =
        F (c # cs) # map (\<lambda>i. F (drop i cs)) [0..<Suc (length cs)]"
    unfolding u by (simp add: comp_def del: upt_Suc)
  show ?thesis
  proof (cases "F (c # cs)")
    case None
    show ?thesis unfolding Cons m by (simp only: list.case first_some.simps option.case None)
  next
    case (Some y)
    show ?thesis unfolding Cons m by (simp only: list.case first_some.simps option.case Some)
  qed
qed

lemma re_search_scan:
  "re_search (capacity_pattern label) s = map_option Some (scan_search label s)"
proof (induction s)
  case Nil
  show ?case by (simp add: re_search_def first_some_single match_capacity_pattern)
next
  case (Cons c cs)
  have "re_search (capacity_pattern label) (c # cs) =
        (case match_items (capacity_pattern label) (c # cs) None of
           Some y \<Rightarrow> Some y
         | None \<Rightarrow> re_search (capacity_pattern label) cs)"
    unfolding re_search_def
    by (subst first_some_positions) simp
  then show ?case using Cons
    by (simp add: match_capacity_pattern split: option.splits)
qed

lemma find_l_scan:
  "find_l (capacity_pattern label) s =
     (case scan_search label s of
        None \<Rightarrow> Inr None
      | Some g \<Rightarrow> (case py_int (remove_commas g) of Inl e \<Rightarrow> Inl e | Inr n \<Rightarrow> Inr (Some n)))"
  by (simp add: find_l_def re_search_scan split: option.splits)

section \<open>Labeled fields and the scanner\<close>

lemma dropWhile_run:
  "list_all P xs \<Longrightarrow> t = [] \<or> \<not> P (hd t) \<Longrightarrow> dropWhile P (xs @ t) = t"
  by (cases t) (auto simp: list_all_iff dropWhile_append)

lemma takeWhile_run:
  "list_all P xs \<Longrightarrow> t = [] \<or> \<not> P (hd t) \<Longrightarrow> takeWhile P (xs @ t) = xs"
  by (cases t) (auto simp: list_all_iff takeWhile_append)

lemma strip_prefix_append: "strip_prefix label (label @ r) = Some r"
  by (induction label) simp_all

lemma strip_prefix_Some: "strip_prefix label s = Some r \<Longrightarrow> s = label @ r"
  by (induction label s rule: strip_prefix.induct) (auto split: if_splits)

lemma scan_number_field:
  assumes "num \<noteq> []" "list_all (in_class CDigitComma) num" "list_all is_space ws3"
  shows "scan_number (num @ ws3 @ ch_L # post) = Some num"
proof -
  let ?t = "ws3 @ ch_L # post"
  have h: "\<not> in_class CDigitComma (hd ?t)"
  proof (cases ws3)
    case Nil
    then show ?thesis using not_digit_L ch_distinct by simp
  next
    case (Cons a as)
    then show ?thesis using assms(3) space_not_dc by simp
  qed
  have t: "takeWhile (in_class CDigitComma) (num @ ?t) = num"
    by (rule takeWhile_run) (use assms h in auto)
  have d: "dropWhile (in_class CDigitComma) (num @ ?t) = ?t"
    by (rule dropWhile_run) (use assms h in auto)
  have s: "dropWhile is_space ?t = ch_L # post"
    using dropWhile_run[of is_space ws3 "ch_L # post"] assms(3) not_space_L by simp
  show ?thesis
    unfolding scan_number_def Let_def t d s using assms(1) by (simp add: starts_with_def)
qed

lemma scan_tail_field:
  assumes "list_all is_space ws1" "c = [] \<or> c = [ch_colon]" "list_all is_space ws2"
    "num \<noteq> []" "list_all (in_class CDigitComma) num" "list_all is_space ws3"
  shows "scan_tail (ws1 @ c @ ws2 @ num @ ws3 @ ch_L # post) = Some num"
proof -
  let ?n = "num @ ws3 @ ch_L # post"
  obtain d ds where num: "num = d # ds" using assms(4) by (cases num) auto
  then have dc: "in_class CDigitComma d" using assms(5) by simp
  then have nsp: "\<not> is_space d" using space_not_dc by blast
  from dc have ncol: "d \<noteq> ch_colon" using colon_not_dc by auto
  have n1: "dropWhile is_space (ws2 @ ?n) = ?n"
    by (rule dropWhile_run) (use assms(3) nsp num in auto)
  show ?thesis
  proof (cases "c = []")
    case True
    have "dropWhile is_space ((ws1 @ ws2) @ ?n) = ?n"
      by (rule dropWhile_run) (use assms(1,3) nsp num in auto)
    moreover have "skip_colon ?n = ?n" using ncol by (simp add: num skip_colon_def)
    moreover have "dropWhile is_space ?n = ?n" using nsp by (simp add: num)
    ultimately show ?thesis
      using True assms by (simp add: scan_tail_def scan_number_field)
  next
    case False
    then have c: "c = [ch_colon]" using assms(2) by simp
    have "dropWhile is_space (ws1 @ ch_colon # ws2 @ ?n) = ch_colon # ws2 @ ?n"
      by (rule dropWhile_run) (use assms(1) not_space_colon in auto)
    moreover have "skip_colon (ch_colon # ws2 @ ?n) = ws2 @ ?n" by (simp add: skip_colon_def)
    ultimately show ?thesis
      using c n1 assms by (simp add: scan_tail_def scan_number_field)
  qed
qed

lemma skip_colon_decomp: "\<exists>c. (c = [] \<or> c = [ch_colon]) \<and> t = c @ skip_colon t"
  by (cases t) (auto simp: skip_colon_def)

lemma scan_number_Some:
  assumes "scan_number s = Some num"
  shows "\<exists>ws3 post. s = num @ ws3 @ ch_L # post \<and> num \<noteq> [] \<and>
           list_all (in_class CDigitComma) num \<and> list_all is_space ws3"
proof -
  let ?d = "dropWhile (in_class CDigitComma) s"
  from assms have num: "num = takeWhile (in_class CDigitComma) s" and ne: "num \<noteq> []"
    and st: "starts_with ch_L (dropWhile is_space ?d)"
    by (auto simp: scan_number_def Let_def split: if_splits)
  from st obtain post where p: "dropWhile is_space ?d = ch_L # post" using starts_withD by blast
  have "s = num @ ?d" by (simp add: num)
  also have "?d = takeWhile is_space ?d @ dropWhile is_space ?d" by simp
  finally have "s = num @ takeWhile is_space ?d @ ch_L # post" by (simp only: p)
  moreover have "list_all (in_class CDigitComma) num"
    unfolding num list_all_iff by (auto dest: set_takeWhileD)
  moreover have "list_all is_space (takeWhile is_space ?d)"
    unfolding list_all_iff by (auto dest: set_takeWhileD)
  ultimately show ?thesis using ne by blast
qed

lemma scan_tail_Some:
  assumes "scan_tail r = Some num"
  shows "\<exists>ws1 c ws2 ws3 post. r = ws1 @ c @ ws2 @ num @ ws3 @ ch_L # post \<and>
        list_all is_space ws1 \<and> (c = [] \<or> c = [ch_colon]) \<and> list_all is_space ws2 \<and>
        num \<noteq> [] \<and> list_all (in_class CDigitComma) num \<and> list_all is_space ws3"
proof -
  let ?d1 = "dropWhile is_space r"
  let ?d2 = "skip_colon ?d1"
  let ?d3 = "dropWhile is_space ?d2"
  from assms have "scan_number ?d3 = Some num" by (simp add: scan_tail_def)
  then obtain ws3 post where n: "?d3 = num @ ws3 @ ch_L # post" "num \<noteq> []"
      "list_all (in_class CDigitComma) num" "list_all is_space ws3"
    using scan_number_Some by blast
  obtain c where c: "c = [] \<or> c = [ch_colon]" "?d1 = c @ ?d2"
    using skip_colon_decomp by blast
  have "r = takeWhile is_space r @ ?d1" by simp
  also have "?d1 = c @ takeWhile is_space ?d2 @ ?d3" using c(2) by simp
  finally have "r = takeWhile is_space r @ c @ takeWhile is_space ?d2 @ num @ ws3 @ ch_L # post"
    by (simp only: n(1))
  moreover have "list_all is_space (takeWhile is_space r)"
    unfolding list_all_iff by (auto dest: set_takeWhileD)
  moreover have "list_all is_space (takeWhile is_space ?d2)"
    unfolding list_all_iff by (auto dest: set_takeWhileD)
  ultimately show ?thesis using c(1) n(2-4) by blast
qed

lemma labeled_field_scan: "labeled_field label num s \<longleftrightarrow> field_scan label s = Some num"
proof
  assume "labeled_field label num s"
  then obtain ws1 c ws2 ws3 post where
    "s = label @ ws1 @ c @ ws2 @ num @ ws3 @ ch_L # post" "list_all is_space ws1"
    "c = [] \<or> c = [ch_colon]" "list_all is_space ws2" "num \<noteq> []"
    "list_all (in_class CDigitComma) num" "list_all is_space ws3"
    unfolding labeled_field_def by blast
  then show "field_scan label s = Some num"
    by (simp add: field_scan_def strip_prefix_append scan_tail_field)
next
  assume "field_scan label s = Some num"
  then obtain r where r: "strip_prefix label s = Some r" "scan_tail r = Some num"
    by (auto simp: field_scan_def split: option.splits)
  from r(1) have "s = label @ r" by (rule strip_prefix_Some)
  with scan_tail_Some[OF r(2)] show "labeled_field label num s"
    unfolding labeled_field_def by blast
qed

section \<open>The leftmost field and the occurrence of a label\<close>

lemma first_field_Nil: "first_field label num [] \<longleftrightarrow> labeled_field label num []"
  by (auto simp: first_field_def)

lemma first_field_Cons:
  "first_field label num (c # cs) \<longleftrightarrow>
     labeled_field label num (c # cs) \<or>
     ((\<forall>n. \<not> labeled_field label n (c # cs)) \<and> first_field label num cs)"
proof
  assume "first_field label num (c # cs)"
  then obtain pre s where ps: "c # cs = pre @ s" "labeled_field label num s"
    and no: "\<And>p q n. pre = p @ q \<Longrightarrow> q \<noteq> [] \<Longrightarrow> \<not> labeled_field label n (q @ s)"
    unfolding first_field_def by blast
  show "labeled_field label num (c # cs) \<or>
     ((\<forall>n. \<not> labeled_field label n (c # cs)) \<and> first_field label num cs)"
  proof (cases pre)
    case Nil
    with ps show ?thesis by simp
  next
    case (Cons a pre')
    with ps have a: "a = c" and cs: "cs = pre' @ s" by simp_all
    have "\<not> labeled_field label n (c # cs)" for n
      using no[of "[]" pre n] Cons ps(1) by simp
    moreover have "first_field label num cs"
      unfolding first_field_def
    proof (intro exI conjI allI impI)
      show "cs = pre' @ s" by (rule cs)
      show "labeled_field label num s" by (rule ps(2))
      fix p q n assume "pre' = p @ q \<and> q \<noteq> []"
      then have "pre = (a # p) @ q" "q \<noteq> []" using Cons by simp_all
      then show "\<not> labeled_field label n (q @ s)" by (rule no)
    qed
    ultimately show ?thesis by blast
  qed
next
  assume r: "labeled_field label num (c # cs) \<or>
     ((\<forall>n. \<not> labeled_field label n (c # cs)) \<and> first_field label num cs)"
  show "first_field label num (c # cs)"
  proof (cases "labeled_field label num (c # cs)")
    case True
    then show ?thesis unfolding first_field_def
      by (rule_tac x = "[]" in exI, rule_tac x = "c # cs" in exI) simp
  next
    case False
    with r have none: "\<And>n. \<not> labeled_field label n (c # cs)" and "first_field label num cs"
      by blast+
    then obtain pre s where ps: "cs = pre @ s" "labeled_field label num s"
      and no: "\<And>p q n. pre = p @ q \<Longrightarrow> q \<noteq> [] \<Longrightarrow> \<not> labeled_field label n (q @ s)"
      unfolding first_field_def by blast
    show ?thesis unfolding first_field_def
    proof (rule exI[of _ "c # pre"], rule exI[of _ s], intro conjI allI impI)
      show "c # cs = (c # pre) @ s" using ps(1) by simp
      show "labeled_field label num s" by (rule ps(2))
      fix p q n assume pq: "c # pre = p @ q \<and> q \<noteq> []"
      show "\<not> labeled_field label n (q @ s)"
      proof (cases p)
        case Nil
        with pq have "q @ s = c # cs" using ps(1) by simp
        then show ?thesis using none by simp
      next
        case (Cons a p')
        with pq have "pre = p' @ q" "q \<noteq> []" by simp_all
        then show ?thesis by (rule no)
      qed
    qed
  qed
qed

lemma first_field_scan: "first_field label num s \<longleftrightarrow> scan_search label s = Some num"
proof (induction s)
  case Nil
  show ?case by (simp add: first_field_Nil labeled_field_scan)
next
  case (Cons c cs)
  show ?case
  proof (cases "field_scan label (c # cs)")
    case None
    then show ?thesis using Cons by (simp add: first_field_Cons labeled_field_scan)
  next
    case (Some g)
    then show ?thesis by (auto simp: first_field_Cons labeled_field_scan)
  qed
qed

lemma field_scan_occurs: "field_scan label s = Some g \<Longrightarrow> occurs label s"
  unfolding occurs_def
  by (auto simp: field_scan_def split: option.splits dest!: strip_prefix_Some intro: exI[of _ "[]"])

lemma occurs_Cons: "occurs label cs \<Longrightarrow> occurs label (c # cs)"
  unfolding occurs_def by (metis append_Cons)

lemma scan_search_occurs: "scan_search label s = Some g \<Longrightarrow> occurs label s"
  by (induction s) (auto split: option.splits dest: field_scan_occurs occurs_Cons)

lemma contains_occurs: "contains label s \<longleftrightarrow> occurs label s"
proof (induction s)
  case Nil
  show ?case by (auto simp: occurs_def)
next
  case (Cons c cs)
  have "occurs label (c # cs) \<longleftrightarrow> take (length label) (c # cs) = label \<or> occurs label cs"
  proof
    assume "occurs label (c # cs)"
    then obtain pre post where e: "c # cs = pre @ label @ post" unfolding occurs_def by blast
    show "take (length label) (c # cs) = label \<or> occurs label cs"
    proof (cases pre)
      case Nil
      with e show ?thesis by simp
    next
      case (Cons a pre')
      with e have "cs = pre' @ label @ post" by simp
      then show ?thesis unfolding occurs_def by blast
    qed
  next
    assume "take (length label) (c # cs) = label \<or> occurs label cs"
    then show "occurs label (c # cs)"
    proof
      assume "take (length label) (c # cs) = label"
      then have "c # cs = [] @ label @ drop (length label) (c # cs)"
        by (metis append_Nil append_take_drop_id)
      then show ?thesis unfolding occurs_def by blast
    next
      assume "occurs label cs"
      then show ?thesis by (rule occurs_Cons)
    qed
  qed
  then show ?case using Cons by simp
qed

lemma contains_fieldI: "labeled_field label num rest \<Longrightarrow> contains_field label num (pre @ rest)"
  unfolding contains_field_def by blast

section \<open>What \<open>find_l\<close> returns\<close>

lemma digits_value_foldl:
  "list_all is_digit cs \<Longrightarrow>
     digits_value acc cs = Some (foldl (\<lambda>a c. 10 * a + the (digit_value c)) acc cs)"
  by (induction cs arbitrary: acc) (auto simp: is_digit_def)

lemma remove_commas_digits:
  "list_all (in_class CDigitComma) num \<Longrightarrow> remove_commas num = filter is_digit num"
  unfolding remove_commas_def
  by (rule filter_cong) (use not_digit_comma in \<open>auto simp: list_all_iff\<close>)

lemma py_int_number:
  assumes "list_all (in_class CDigitComma) num" "has_digit num"
    and "digit_count num \<le> int_max_str_digits"
  shows "py_int (remove_commas num) = Inr (number_of num)"
proof -
  have "filter is_digit num \<noteq> []"
    using assms(2) by (auto simp: has_digit_def list_ex_iff filter_empty_conv)
  moreover have "list_all is_digit (filter is_digit num)" by (simp add: list_all_iff)
  moreover have "\<not> int_max_str_digits < length (filter is_digit num)"
    using assms(3) by (simp add: digit_count_def)
  ultimately show ?thesis
    by (simp add: py_int_def remove_commas_digits[OF assms(1)] digits_value_foldl number_of_def)
qed

lemma py_int_too_long:
  assumes "list_all (in_class CDigitComma) num" "int_max_str_digits < digit_count num"
  shows "py_int (remove_commas num) = Inl ValueError"
proof -
  have "list_all is_digit (filter is_digit num)" by (simp add: list_all_iff)
  then show ?thesis using assms(2)
    by (simp add: py_int_def remove_commas_digits[OF assms(1)] digits_value_foldl
                  digit_count_def)
qed

lemma py_int_no_digit:
  assumes "list_all (in_class CDigitComma) num" "\<not> has_digit num"
  shows "py_int (remove_commas num) = Inl ValueError"
proof -
  have "filter is_digit num = []"
    using assms(2) by (auto simp: has_digit_def list_ex_iff filter_empty_conv)
  then show ?thesis by (simp add: py_int_def remove_commas_digits[OF assms(1)])
qed

lemma scan_search_dc:
  "scan_search label s = Some num \<Longrightarrow> list_all (in_class CDigitComma) num"
  using first_field_scan[of label num s]
  unfolding first_field_def labeled_field_def by blast

lemma find_l_first_field:
  assumes "first_field label num s" "has_digit num" "digit_count num \<le> int_max_str_digits"
  shows "find_l (capacity_pattern label) s = Inr (Some (number_of num))"
proof -
  from assms(1) have s: "scan_search label s = Some num" by (simp add: first_field_scan)
  then show ?thesis
    by (simp add: find_l_scan py_int_number[OF scan_search_dc[OF s] assms(2,3)])
qed

lemma find_l_too_long:
  assumes "first_field label num s" "int_max_str_digits < digit_count num"
  shows "find_l (capacity_pattern label) s = Inl ValueError"
proof -
  from assms(1) have s: "scan_search label s = Some num" by (simp add: first_field_scan)
  then show ?thesis
    by (simp add: find_l_scan py_int_too_long[OF scan_search_dc[OF s] assms(2)])
qed

lemma find_l_no_field:
  assumes "\<And>num. \<not> first_field label num s"
  shows "find_l (capacity_pattern label) s = Inr None"
proof -
  have "scan_search label s = None"
    using assms first_field_scan by (cases "scan_search label s") auto
  then show ?thesis by (simp add: find_l_scan)
qed


lemma find_l_no_digit:
  assumes "first_field label num s" "\<not> has_digit num"
  shows "find_l (capacity_pattern label) s = Inl ValueError"
proof -
  from assms(1) have s: "scan_search label s = Some num" by (simp add: first_field_scan)
  then show ?thesis
    by (simp add: find_l_scan py_int_no_digit[OF scan_search_dc[OF s] assms(2)])
qed

lemma find_l_absent:
  assumes "\<not> occurs label s"
  shows "find_l (capacity_pattern label) s = Inr None"
proof -
  have "scan_search label s = None"
    using assms scan_search_occurs by (cases "scan_search label s") auto
  then show ?thesis by (simp add: find_l_scan)
qed

lemmas scan_eval = field_scan_def scan_tail_def scan_number_def skip_colon_def starts_with_def
  is_space_def space_chars_def is_digit_def digit_value_def nd_zeros_def
  ch_colon_def ch_comma_def ch_L_def label_total_def label_fridge_def label_freezer_def ascii_def
  int_max_str_digits_def

section \<open>The rows of a page\<close>

lemma parse_items_rows:
  "parse_items items results = Inr rows \<Longrightarrow> rows = results @ concat (map emitted items)"
proof (induction items arbitrary: results)
  case Nil
  then show ?case by simp
next
  case (Cons it items)
  show ?case
  proof (cases "name_el it")
    case None
    with Cons show ?thesis by (simp add: emitted_def)
  next
    case name: (Some name)
    show ?thesis
    proof (cases "chosen_spec it")
      case None
      with Cons name show ?thesis by (simp add: emitted_def chosen_spec_def)
    next
      case spec: (Some spec_text)
      show ?thesis
      proof (cases "extract_capacities spec_text")
        case (Inl x)
        with Cons.prems name spec show ?thesis by (simp add: chosen_spec_def)
      next
        case (Inr caps)
        obtain a b c where caps: "caps = (a, b, c)" by (cases caps) auto
        show ?thesis
        proof (cases "a = None \<or> b = None \<or> c = None")
          case True
          with Cons.prems name spec Inr caps
          have "parse_items items results = Inr rows" by (simp add: chosen_spec_def)
          then have "rows = results @ concat (map emitted items)" by (rule Cons.IH)
          moreover have "emitted it = []"
            using True name spec Inr caps by (auto simp: emitted_def split: option.splits)
          ultimately show ?thesis by simp
        next
          case False
          then obtain t f z where v: "a = Some t" "b = Some f" "c = Some z" by auto
          with Cons.prems name spec Inr caps
          have "parse_items items (results @ [(name, t, z, f)]) = Inr rows"
            by (simp add: chosen_spec_def)
          then have "rows = (results @ [(name, t, z, f)]) @ concat (map emitted items)"
            by (rule Cons.IH)
          moreover have "emitted it = [(name, t, z, f)]"
            using v name spec Inr caps by (simp add: emitted_def)
          ultimately show ?thesis by simp
        qed
      qed
    qed
  qed
qed

lemma emitted_length: "length (emitted it) \<le> 1"
  by (auto simp: emitted_def split: option.splits sum.splits prod.splits)

lemma concat_emitted_length: "length (concat (map emitted items)) \<le> length items"
proof (induction items)
  case Nil
  show ?case by simp
next
  case (Cons it items)
  then show ?case using emitted_length[of it] by simp
qed

lemma emitted_row:
  "r \<in> set (emitted it) \<Longrightarrow>
     \<exists>name spec_text total_l fridge_l freezer_l.
       name_el it = Some name \<and> chosen_spec it = Some spec_text \<and>
       extract_capacities spec_text = Inr (Some total_l, Some fridge_l, Some freezer_l) \<and>
       r = (name, total_l, freezer_l, fridge_l)"
  by (auto simp: emitted_def split: option.splits sum.splits prod.splits) (metis)

lemma parse_current_page_items:
  "page_items e (tr @ [PageSource]) = Inr items \<Longrightarrow>
     parse_current_page e tr = (parse_items items [], tr @ [PageSource])"
  by (simp add: parse_current_page_def bind_def read_page_def)


lemma parse_items_step:
  "parse_items (it # items) results =
     (case spec_item_outcome it of
        Inl x \<Rightarrow> Inl x
      | Inr r \<Rightarrow> parse_items items (results @ r))"
  by (auto simp: spec_item_outcome_def chosen_spec_def split: option.splits sum.splits)

lemma parse_items_outcome:
  "parse_items items results =
     (case spec_page_outcome items of Inl x \<Rightarrow> Inl x | Inr rs \<Rightarrow> Inr (results @ rs))"
proof (induction items arbitrary: results)
  case Nil
  show ?case by simp
next
  case (Cons it items)
  show ?case
    unfolding parse_items_step spec_page_outcome.simps
    by (simp add: Cons.IH split: sum.splits)
qed

lemma parse_current_page_outcome:
  "page_items e (tr @ [PageSource]) = Inr items \<Longrightarrow>
     parse_current_page e tr = (spec_page_outcome items, tr @ [PageSource])"
  by (simp add: parse_current_page_items parse_items_outcome split: sum.splits)

section \<open>The parser on the example spec texts\<close>

lemmas extract_eval = extract_capacities_def find_l_scan py_int_def remove_commas_def scan_eval

lemma extract_870_503_367:
  "extract_capacities spec_870_503_367 = Inr (Some 870, Some 503, Some 367)"
  by (simp add: spec_870_503_367_def extract_eval)

lemma extract_no_freezer:
  "extract_capacities spec_no_freezer = Inr (Some 870, Some 503, None)"
  by (simp add: spec_no_freezer_def extract_eval)

lemma extract_digit_free:
  "extract_capacities spec_digit_free = Inl ValueError"
  by (simp add: spec_digit_free_def extract_eval)

lemma page_env_simps:
  "do_call (page_env items) h = None"
  "page_items (page_env items) h = Inr items"
  "clickable (page_env items) h = Inl TimeoutException"
  "attribute (page_env items) h = Inr None"
  by (simp_all add: page_env_def)

lemma long_number_field:
  "labeled_field label_total (replicate 4301 49)
     (label_total @ ascii '': '' @ replicate 4301 49 @ ascii ''L/'' @ rest)"
  unfolding labeled_field_def
proof (intro exI conjI)
  show "label_total @ ascii '': '' @ replicate 4301 49 @ ascii ''L/'' @ rest =
        label_total @ [] @ [ch_colon] @ [32] @ replicate 4301 49 @ [] @ ch_L # (ascii ''/'' @ rest)"
    by (simp add: ascii_def ch_colon_def ch_L_def)
  show "list_all is_space [32]" by (simp add: is_space_def space_chars_def)
  show "list_all (in_class CDigitComma) (replicate 4301 49)"
    by (simp add: list_all_iff is_digit_def digit_value_def nd_zeros_def)
  show "replicate 4301 (49::nat) \<noteq> []" by simp
qed simp_all

lemma long_number_first:
  "first_field label_total (replicate 4301 49) spec_long_number"
  unfolding first_field_def spec_long_number_def
  by (rule_tac x = "[]" in exI, rule_tac x = "label_total @ ascii '': '' @ replicate 4301 49 @
        ascii ''L/'' @ label_fridge @ ascii '': 503L/'' @ label_freezer @ ascii '': 367L/''" in exI)
     (simp add: long_number_field)

lemma long_number_raises: "extract_capacities spec_long_number = Inl ValueError"
proof -
  have "is_digit 49" by (simp add: is_digit_def digit_value_def nd_zeros_def)
  then have "digit_count (replicate 4301 49) = 4301" by (simp add: digit_count_def)
  then have "int_max_str_digits < digit_count (replicate 4301 49)"
    by (simp add: int_max_str_digits_def)
  then have "find_l (capacity_pattern label_total) spec_long_number = Inl ValueError"
    by (rule find_l_too_long[OF long_number_first])
  then show ?thesis by (simp add: extract_capacities_def)
qed

lemma long_number_fields:
  "contains_field label_total (replicate 4301 49) spec_long_number \<and>
   contains_field label_fridge (ascii ''503'') spec_long_number \<and>
   contains_field label_freezer (ascii ''367'') spec_long_number"
proof -
  have t: "contains_field label_total (replicate 4301 49)
      ([] @ (label_total @ ascii '': '' @ replicate 4301 49 @ ascii ''L/'' @
       label_fridge @ ascii '': 503L/'' @ label_freezer @ ascii '': 367L/''))"
    by (rule contains_fieldI) (rule long_number_field)
  have f: "contains_field label_fridge (ascii ''503'')
      ((label_total @ ascii '': '' @ replicate 4301 49 @ ascii ''L/'') @
       (label_fridge @ ascii '': 503L/'' @ label_freezer @ ascii '': 367L/''))"
    by (rule contains_fieldI) (simp add: labeled_field_scan scan_eval)
  have z: "contains_field label_freezer (ascii ''367'')
      ((label_total @ ascii '': '' @ replicate 4301 49 @ ascii ''L/'' @
        label_fridge @ ascii '': 503L/'') @ (label_freezer @ ascii '': 367L/''))"
    by (rule contains_fieldI) (simp add: labeled_field_scan scan_eval)
  from t f z show ?thesis by (simp add: spec_long_number_def)
qed

section \<open>The pagination advancer\<close>









lemmas prog_defs = bind_def return_def try_timeout_def perform_def wait_clickable_def
  get_attribute_def read_page_def


section \<open>The calls of the pagination advancer\<close>





lemma emits_read_page: "PageSource \<in> S \<Longrightarrow> emits S (read_page e)"
  by (simp add: emits_def read_page_def)









section \<open>The paths through the pagination advancer\<close>














section \<open>The example environments\<close>




section \<open>The crawl loop\<close>

lemma crawl_loop_parse_raise:
  "current_page \<le> MAX_PAGES \<Longrightarrow> parse_current_page e tr = (Inl x, tr1) \<Longrightarrow>
     crawl_loop e current_page all_rows tr = (Inl x, tr1)"
  by (subst crawl_loop.simps) simp












section \<open>The rows and the pages of the crawl loop\<close>








section \<open>The structure of \<open>main\<close>\<close>













section \<open>Runs of \<open>main\<close>\<close>








section \<open>The claims about the item extractor\<close>

text \<open>
  Claim C1: for every page's list of candidate items, \<open>parse_current_page\<close> emits a row
  only when all three capacity fields parsed from the item's spec text are present; an
  item with a missing field is discarded entirely. So the number of rows is at most the
  number of candidates, every row carries three integers that \<open>extract_capacities\<close>
  found, and the rows are exactly those of the complete items, in the order of the items.
\<close>

theorem parse_current_page_all_or_nothing:
  assumes "page_items e (tr @ [PageSource]) = Inr items"
    and "parse_current_page e tr = (Inr rows, tr')"
  shows "length rows \<le> length items \<and>
         (\<forall>r\<in>set rows. \<exists>it\<in>set items. \<exists>name spec_text total_l fridge_l freezer_l.
            name_el it = Some name \<and> chosen_spec it = Some spec_text \<and>
            extract_capacities spec_text = Inr (Some total_l, Some fridge_l, Some freezer_l) \<and>
            r = (name, total_l, freezer_l, fridge_l)) \<and>
         rows = concat (map emitted items)"
proof -
  from assms have "parse_items items [] = Inr rows" by (simp add: parse_current_page_items)
  then have rows: "rows = concat (map emitted items)" using parse_items_rows by fastforce
  have "\<exists>it\<in>set items. \<exists>name spec_text total_l fridge_l freezer_l.
            name_el it = Some name \<and> chosen_spec it = Some spec_text \<and>
            extract_capacities spec_text = Inr (Some total_l, Some fridge_l, Some freezer_l) \<and>
            r = (name, total_l, freezer_l, fridge_l)" if "r \<in> set rows" for r
  proof -
    from that obtain it where "it \<in> set items" "r \<in> set (emitted it)"
      unfolding rows by auto
    then show ?thesis using emitted_row by blast
  qed
  then show ?thesis using rows concat_emitted_length by blast
qed

theorem parse_current_page_all_or_nothing_witness:
  "page_items
     (page_env [\<lparr>name_el = Some (ascii ''A''), spec_list_el = Some spec_870_503_367,
                  prod_spec_set_el = None\<rparr>,
                \<lparr>name_el = Some (ascii ''B''), spec_list_el = Some spec_no_freezer,
                  prod_spec_set_el = None\<rparr>]) ([] @ [PageSource]) =
     Inr [\<lparr>name_el = Some (ascii ''A''), spec_list_el = Some spec_870_503_367,
             prod_spec_set_el = None\<rparr>,
          \<lparr>name_el = Some (ascii ''B''), spec_list_el = Some spec_no_freezer,
             prod_spec_set_el = None\<rparr>] \<and>
   parse_current_page
     (page_env [\<lparr>name_el = Some (ascii ''A''), spec_list_el = Some spec_870_503_367,
                  prod_spec_set_el = None\<rparr>,
                \<lparr>name_el = Some (ascii ''B''), spec_list_el = Some spec_no_freezer,
                  prod_spec_set_el = None\<rparr>]) [] =
     (Inr [(ascii ''A'', 870, 367, 503)], [PageSource]) \<and>
   length [(ascii ''A'', 870::int, 367::int, 503::int)] \<le>
     length [\<lparr>name_el = Some (ascii ''A''), spec_list_el = Some spec_870_503_367,
               prod_spec_set_el = None\<rparr>,
             \<lparr>name_el = Some (ascii ''B''), spec_list_el = Some spec_no_freezer,
               prod_spec_set_el = None\<rparr>]"
proof -
  let ?items = "[\<lparr>name_el = Some (ascii ''A''), spec_list_el = Some spec_870_503_367,
                  prod_spec_set_el = None\<rparr>,
                \<lparr>name_el = Some (ascii ''B''), spec_list_el = Some spec_no_freezer,
                  prod_spec_set_el = None\<rparr>]"
  have p: "page_items (page_env ?items) ([] @ [PageSource]) = Inr ?items"
    by (simp add: page_env_def)
  have r: "parse_current_page (page_env ?items) [] =
             (Inr [(ascii ''A'', 870, 367, 503)], [PageSource])"
    by (simp add: parse_current_page_items[OF p] extract_870_503_367 extract_no_freezer)
  from parse_current_page_all_or_nothing[OF p r] p r show ?thesis by blast
qed

text \<open>
  Claim C4: for a page with one candidate item named \<open>ABC Fridge\<close> whose spec text is
  the total capacity label with \<open>: 870L/\<close>, the fridge label with \<open>: 503L/\<close> and the
  freezer label with \<open>: 367L/\<close>, the extractor emits exactly the row
  \<open>(ABC Fridge, 870, 367, 503)\<close>: name, total, freezer, fridge, the freezer before the
  fridge although the parser returns the fridge before the freezer.
\<close>

theorem parse_current_page_abc_fridge:
  assumes "page_items e (tr @ [PageSource]) = Inr [it]"
    and "name_el it = Some (ascii ''ABC Fridge'')"
    and "chosen_spec it = Some spec_870_503_367"
  shows "parse_current_page e tr = (Inr [(ascii ''ABC Fridge'', 870, 367, 503)], tr @ [PageSource]) \<and>
         extract_capacities spec_870_503_367 = Inr (Some 870, Some 503, Some 367)"
  using assms(2,3)
  by (simp add: parse_current_page_items[OF assms(1)] chosen_spec_def extract_870_503_367)

theorem parse_current_page_abc_fridge_witness:
  "parse_current_page
     (page_env [\<lparr>name_el = Some (ascii ''ABC Fridge''), spec_list_el = Some spec_870_503_367,
                  prod_spec_set_el = None\<rparr>]) [] =
     (Inr [(ascii ''ABC Fridge'', 870, 367, 503)], [PageSource])"
proof -
  let ?it = "\<lparr>name_el = Some (ascii ''ABC Fridge''), spec_list_el = Some spec_870_503_367,
                  prod_spec_set_el = None\<rparr>"
  have "page_items (page_env [?it]) ([] @ [PageSource]) = Inr [?it]"
    by (simp add: page_env_def)
  moreover have "name_el ?it = Some (ascii ''ABC Fridge'')" by simp
  moreover have "chosen_spec ?it = Some spec_870_503_367" by (simp add: chosen_spec_def)
  ultimately show ?thesis using parse_current_page_abc_fridge[of "page_env [?it]" "[]" ?it]
    by simp
qed

text \<open>
  Claim C8: for every candidate item \<open>parse_current_page\<close> takes the spec text from the
  primary selection (\<open>div.spec_list\<close>) and from the secondary one
  (\<open>div.prod_spec_set\<close>) only when the primary is absent; it skips the candidate, adding
  no row and going on with the remaining candidates, when the name is absent or when
  neither selection exists. For the first candidate \<open>it\<close> of any page: when it is
  skipped, the page gives what the remaining candidates give; when it has a name and the
  text \<open>t\<close> is its primary block, or its secondary block in the absence of a primary
  one, the outcome is decided by \<open>extract_capacities t\<close>: its exception, or the row of
  the three integers before the rows of the remaining candidates, or only the latter.
\<close>

theorem parse_current_page_selectors:
  assumes "page_items e (tr @ [PageSource]) = Inr (it # items)"
  shows "(name_el it = None \<or> (spec_list_el it = None \<and> prod_spec_set_el it = None) \<longrightarrow>
            parse_current_page e tr = (spec_page_outcome items, tr @ [PageSource])) \<and>
         (\<forall>name t.
            name_el it = Some name \<and>
            (spec_list_el it = Some t \<or> (spec_list_el it = None \<and> prod_spec_set_el it = Some t)) \<longrightarrow>
            parse_current_page e tr =
              (case extract_capacities t of
                 Inl x \<Rightarrow> Inl x
               | Inr (Some total_l, Some fridge_l, Some freezer_l) \<Rightarrow>
                   (case spec_page_outcome items of
                      Inl x \<Rightarrow> Inl x
                    | Inr rs \<Rightarrow> Inr ((name, total_l, freezer_l, fridge_l) # rs))
               | Inr _ \<Rightarrow> spec_page_outcome items,
               tr @ [PageSource]))"
proof (intro conjI allI impI)
  assume "name_el it = None \<or> (spec_list_el it = None \<and> prod_spec_set_el it = None)"
  then have "spec_item_outcome it = Inr []"
    by (auto simp: spec_item_outcome_def chosen_spec_def split: option.splits)
  then show "parse_current_page e tr = (spec_page_outcome items, tr @ [PageSource])"
    by (simp add: parse_current_page_outcome[OF assms] split: sum.splits)
next
  fix name t
  assume "name_el it = Some name \<and>
     (spec_list_el it = Some t \<or> (spec_list_el it = None \<and> prod_spec_set_el it = Some t))"
  then have n: "name_el it = Some name" and c: "chosen_spec it = Some t"
    by (auto simp: chosen_spec_def)
  show "parse_current_page e tr =
              (case extract_capacities t of
                 Inl x \<Rightarrow> Inl x
               | Inr (Some total_l, Some fridge_l, Some freezer_l) \<Rightarrow>
                   (case spec_page_outcome items of
                      Inl x \<Rightarrow> Inl x
                    | Inr rs \<Rightarrow> Inr ((name, total_l, freezer_l, fridge_l) # rs))
               | Inr _ \<Rightarrow> spec_page_outcome items,
               tr @ [PageSource])"
    by (simp add: parse_current_page_outcome[OF assms] spec_item_outcome_def n c
             split: sum.splits option.splits prod.splits)
qed

theorem parse_current_page_selectors_witness:
  "parse_current_page
     (page_env
        [\<lparr>name_el = None, spec_list_el = Some spec_870_503_367, prod_spec_set_el = None\<rparr>,
         \<lparr>name_el = Some (ascii ''B''), spec_list_el = None, prod_spec_set_el = None\<rparr>,
         \<lparr>name_el = Some (ascii ''C''), spec_list_el = Some spec_870_503_367,
           prod_spec_set_el = Some spec_no_freezer\<rparr>,
         \<lparr>name_el = Some (ascii ''D''), spec_list_el = None,
           prod_spec_set_el = Some spec_870_503_367\<rparr>]) [] =
     (Inr [(ascii ''C'', 870, 367, 503), (ascii ''D'', 870, 367, 503)], [PageSource])"
proof -
  let ?a = "\<lparr>name_el = None, spec_list_el = Some spec_870_503_367, prod_spec_set_el = None\<rparr>"
  let ?b = "\<lparr>name_el = Some (ascii ''B''), spec_list_el = None, prod_spec_set_el = None\<rparr>"
  let ?c = "\<lparr>name_el = Some (ascii ''C''), spec_list_el = Some spec_870_503_367,
                  prod_spec_set_el = Some spec_no_freezer\<rparr>"
  let ?d = "\<lparr>name_el = Some (ascii ''D''), spec_list_el = None,
                  prod_spec_set_el = Some spec_870_503_367\<rparr>"
  have d: "parse_current_page (page_env [?d]) [] =
             (Inr [(ascii ''D'', 870, 367, 503)], [PageSource])"
    using parse_current_page_selectors[where e = "page_env [?d]" and tr = "[]" and it = ?d
        and items = "[]"]
    by (simp add: page_env_simps extract_870_503_367)
  then have sd: "spec_page_outcome [?d] = Inr [(ascii ''D'', 870, 367, 503)]"
    by (simp add: parse_current_page_outcome page_env_simps del: spec_page_outcome.simps)
  have c: "parse_current_page (page_env [?c, ?d]) [] =
             (Inr [(ascii ''C'', 870, 367, 503), (ascii ''D'', 870, 367, 503)], [PageSource])"
    using parse_current_page_selectors[where e = "page_env [?c, ?d]" and tr = "[]" and it = ?c
        and items = "[?d]"]
    by (simp add: page_env_simps extract_870_503_367 sd del: spec_page_outcome.simps)
  then have sc: "spec_page_outcome [?c, ?d] =
      Inr [(ascii ''C'', 870, 367, 503), (ascii ''D'', 870, 367, 503)]"
    by (simp add: parse_current_page_outcome page_env_simps del: spec_page_outcome.simps)
  have b: "parse_current_page (page_env [?b, ?c, ?d]) [] =
             (Inr [(ascii ''C'', 870, 367, 503), (ascii ''D'', 870, 367, 503)], [PageSource])"
    using parse_current_page_selectors[where e = "page_env [?b, ?c, ?d]" and tr = "[]"
        and it = ?b and items = "[?c, ?d]"]
    by (simp add: page_env_simps sc del: spec_page_outcome.simps)
  then have sb: "spec_page_outcome [?b, ?c, ?d] =
      Inr [(ascii ''C'', 870, 367, 503), (ascii ''D'', 870, 367, 503)]"
    by (simp add: parse_current_page_outcome page_env_simps del: spec_page_outcome.simps)
  show ?thesis
    using parse_current_page_selectors[where e = "page_env [?a, ?b, ?c, ?d]" and tr = "[]"
        and it = ?a and items = "[?b, ?c, ?d]"]
    by (simp add: page_env_simps sb del: spec_page_outcome.simps)
qed

section \<open>The claims about the spec parser\<close>

text \<open>
  Claim C2 says that for every spec text containing all three labeled capacity fields, in
  any order, with numbers that may contain thousands separators, \<open>extract_capacities\<close>
  returns the three integers with the separators removed. As stated this fails: the
  search takes the leftmost place where the pattern of a label matches, and there the
  number part may consist of commas only. The text below contains the three fields with
  the numbers \<open>1,234\<close>, \<open>503\<close> and \<open>367\<close>, but the total capacity label is first followed
  by \<open>: ,L\<close>, and \<open>extract_capacities\<close> raises \<open>ValueError\<close>. It also raises when a
  number has more digits than \<open>int\<close> converts, as the total capacity of 4301 digits in
  the second text.
\<close>

theorem extract_capacities_all_fields_counterexample:
  "contains_field label_total (ascii ''1,234'') spec_digit_free_first \<and>
   contains_field label_fridge (ascii ''503'') spec_digit_free_first \<and>
   contains_field label_freezer (ascii ''367'') spec_digit_free_first \<and>
   extract_capacities spec_digit_free_first = Inl ValueError \<and>
   contains_field label_total (replicate 4301 49) spec_long_number \<and>
   contains_field label_fridge (ascii ''503'') spec_long_number \<and>
   contains_field label_freezer (ascii ''367'') spec_long_number \<and>
   extract_capacities spec_long_number = Inl ValueError"
proof -
  have t: "contains_field label_total (ascii ''1,234'')
             ((label_total @ ascii '': ,L/'') @
              (label_total @ ascii '': 1,234L/'' @ label_fridge @ ascii '': 503L/'' @
               label_freezer @ ascii '': 367L/''))"
    by (rule contains_fieldI) (simp add: labeled_field_scan scan_eval)
  have f: "contains_field label_fridge (ascii ''503'')
             ((label_total @ ascii '': ,L/'' @ label_total @ ascii '': 1,234L/'') @
              (label_fridge @ ascii '': 503L/'' @ label_freezer @ ascii '': 367L/''))"
    by (rule contains_fieldI) (simp add: labeled_field_scan scan_eval)
  have z: "contains_field label_freezer (ascii ''367'')
             ((label_total @ ascii '': ,L/'' @ label_total @ ascii '': 1,234L/'' @
               label_fridge @ ascii '': 503L/'') @ (label_freezer @ ascii '': 367L/''))"
    by (rule contains_fieldI) (simp add: labeled_field_scan scan_eval)
  have r: "extract_capacities spec_digit_free_first = Inl ValueError"
    by (simp add: spec_digit_free_first_def extract_eval)
  from t f z r long_number_fields long_number_raises show ?thesis
    by (simp add: spec_digit_free_first_def)
qed

text \<open>
  Claim C2, amended: for every spec text in which, for each of the three labels, the
  leftmost field of the label has a number with at least one digit and at most 4300
  digits, \<open>extract_capacities\<close> returns the integers of these three leftmost fields
  with the separators removed, whatever the order of the fields in the text. In
  particular the text made of the total capacity label and \<open>: 1,234L\<close> gives the total
  1234.
\<close>

theorem extract_capacities_all_fields:
  assumes "first_field label_total nt s" "has_digit nt" "digit_count nt \<le> int_max_str_digits"
    and "first_field label_fridge nf s" "has_digit nf" "digit_count nf \<le> int_max_str_digits"
    and "first_field label_freezer nz s" "has_digit nz" "digit_count nz \<le> int_max_str_digits"
  shows "extract_capacities s =
           Inr (Some (number_of nt), Some (number_of nf), Some (number_of nz)) \<and>
         extract_capacities (label_total @ ascii '': 1,234L'') = Inr (Some 1234, None, None)"
proof
  show "extract_capacities s =
           Inr (Some (number_of nt), Some (number_of nf), Some (number_of nz))"
    using assms by (simp add: extract_capacities_def find_l_first_field)
  show "extract_capacities (label_total @ ascii '': 1,234L'') = Inr (Some 1234, None, None)"
    by (simp add: extract_eval)
qed

theorem extract_capacities_all_fields_witness:
  "first_field label_total (ascii ''1,234'')
     (label_total @ ascii '': 1,234L/'' @ label_freezer @ ascii '' 367 L/'' @
      label_fridge @ ascii '':503L'') \<and>
   has_digit (ascii ''1,234'') \<and> digit_count (ascii ''1,234'') \<le> int_max_str_digits \<and>
   extract_capacities
     (label_total @ ascii '': 1,234L/'' @ label_freezer @ ascii '' 367 L/'' @
      label_fridge @ ascii '':503L'') = Inr (Some 1234, Some 503, Some 367)"
proof -
  let ?s = "label_total @ ascii '': 1,234L/'' @ label_freezer @ ascii '' 367 L/'' @
      label_fridge @ ascii '':503L''"
  have t: "first_field label_total (ascii ''1,234'') ?s"
    by (simp add: first_field_scan scan_eval)
  have f: "first_field label_fridge (ascii ''503'') ?s"
    by (simp add: first_field_scan scan_eval)
  have z: "first_field label_freezer (ascii ''367'') ?s"
    by (simp add: first_field_scan scan_eval)
  have d: "has_digit (ascii ''1,234'')" "has_digit (ascii ''503'')" "has_digit (ascii ''367'')"
    by (simp_all add: has_digit_def scan_eval)
  have c: "digit_count (ascii ''1,234'') \<le> int_max_str_digits"
    "digit_count (ascii ''503'') \<le> int_max_str_digits"
    "digit_count (ascii ''367'') \<le> int_max_str_digits"
    by (simp_all add: digit_count_def scan_eval)
  have n: "number_of (ascii ''1,234'') = 1234" "number_of (ascii ''503'') = 503"
      "number_of (ascii ''367'') = 367"
    by (simp_all add: number_of_def scan_eval)
  from extract_capacities_all_fields[OF t d(1) c(1) f d(2) c(2) z d(3) c(3)] t d(1) c(1)
  show ?thesis by (simp only: n)
qed

text \<open>
  Claim C3 says that for every spec text in which exactly one of the three labels does
  not occur, \<open>extract_capacities\<close> returns \<open>None\<close> for exactly that field and the
  parsed integers for the other two. As stated this fails in two ways. A label can occur
  without being followed by a number: in the first text below the freezer label is the
  only one that does not occur, the fridge label occurs only inside a longer word, and
  the result is \<open>None\<close> for the fridge as well. And a field whose number part has no
  digit makes \<open>int\<close> raise: in the second text the freezer label is again the only one
  that does not occur, both other fields are there, and \<open>extract_capacities\<close> raises
  \<open>ValueError\<close> on the digit-free field that comes first.
\<close>

theorem extract_capacities_one_label_missing_counterexample:
  "occurs label_total spec_fridge_word \<and> occurs label_fridge spec_fridge_word \<and>
   \<not> occurs label_freezer spec_fridge_word \<and>
   extract_capacities spec_fridge_word = Inr (Some 870, None, None) \<and>
   \<not> occurs label_freezer spec_digit_free_no_freezer \<and>
   contains_field label_total (ascii ''870'') spec_digit_free_no_freezer \<and>
   contains_field label_fridge (ascii ''503'') spec_digit_free_no_freezer \<and>
   extract_capacities spec_digit_free_no_freezer = Inl ValueError"
proof -
  have o: "occurs label_total spec_fridge_word" "occurs label_fridge spec_fridge_word"
    "\<not> occurs label_freezer spec_fridge_word"
    "\<not> occurs label_freezer spec_digit_free_no_freezer"
    by (simp_all add: contains_occurs[symmetric] spec_fridge_word_def
          spec_digit_free_no_freezer_def scan_eval)
  have r: "extract_capacities spec_fridge_word = Inr (Some 870, None, None)"
    "extract_capacities spec_digit_free_no_freezer = Inl ValueError"
    by (simp_all add: spec_fridge_word_def spec_digit_free_no_freezer_def extract_eval)
  have t: "contains_field label_total (ascii ''870'')
             ((label_total @ ascii '': ,L/'') @
              (label_total @ ascii '': 870L/'' @ label_fridge @ ascii '': 503L/''))"
    by (rule contains_fieldI) (simp add: labeled_field_scan scan_eval)
  have f: "contains_field label_fridge (ascii ''503'')
             ((label_total @ ascii '': ,L/'' @ label_total @ ascii '': 870L/'') @
              (label_fridge @ ascii '': 503L/''))"
    by (rule contains_fieldI) (simp add: labeled_field_scan scan_eval)
  from o r t f show ?thesis by (simp add: spec_digit_free_no_freezer_def)
qed

text \<open>
  Claim C3, amended: for every spec text in which one of the three labels does not occur
  and each of the other two labels has a leftmost field whose number has at least one
  digit and at most 4300 digits, \<open>extract_capacities\<close> returns \<open>None\<close> (not zero) for
  the field of the missing label and the integers of the two leftmost fields for the
  others. One conjunct for each label that can be the missing one.
\<close>

theorem extract_capacities_one_label_missing:
  "(\<not> occurs label_total s \<and>
      first_field label_fridge nf s \<and> has_digit nf \<and> digit_count nf \<le> int_max_str_digits \<and>
      first_field label_freezer nz s \<and> has_digit nz \<and> digit_count nz \<le> int_max_str_digits \<longrightarrow>
      extract_capacities s = Inr (None, Some (number_of nf), Some (number_of nz))) \<and>
   (first_field label_total nt s \<and> has_digit nt \<and> digit_count nt \<le> int_max_str_digits \<and>
      \<not> occurs label_fridge s \<and>
      first_field label_freezer nz s \<and> has_digit nz \<and> digit_count nz \<le> int_max_str_digits \<longrightarrow>
      extract_capacities s = Inr (Some (number_of nt), None, Some (number_of nz))) \<and>
   (first_field label_total nt s \<and> has_digit nt \<and> digit_count nt \<le> int_max_str_digits \<and>
      first_field label_fridge nf s \<and> has_digit nf \<and> digit_count nf \<le> int_max_str_digits \<and>
      \<not> occurs label_freezer s \<longrightarrow>
      extract_capacities s = Inr (Some (number_of nt), Some (number_of nf), None))"
  by (intro conjI impI; elim conjE)
     (simp_all add: extract_capacities_def find_l_first_field find_l_absent)

theorem extract_capacities_one_label_missing_witness:
  "extract_capacities (label_fridge @ ascii '': 503L/'' @ label_freezer @ ascii '': 367L/'') =
     Inr (None, Some 503, Some 367) \<and>
   extract_capacities (label_total @ ascii '': 870L/'' @ label_freezer @ ascii '': 367L/'') =
     Inr (Some 870, None, Some 367) \<and>
   extract_capacities (label_total @ ascii '': 870L/'' @ label_fridge @ ascii '': 503L/'') =
     Inr (Some 870, Some 503, None)"
proof -
  let ?a = "label_fridge @ ascii '': 503L/'' @ label_freezer @ ascii '': 367L/''"
  let ?b = "label_total @ ascii '': 870L/'' @ label_freezer @ ascii '': 367L/''"
  let ?c = "label_total @ ascii '': 870L/'' @ label_fridge @ ascii '': 503L/''"
  have absent: "\<not> occurs label_total ?a" "\<not> occurs label_fridge ?b"
      "\<not> occurs label_freezer ?c"
    by (simp_all add: contains_occurs[symmetric] scan_eval)
  have fields: "first_field label_fridge (ascii ''503'') ?a"
      "first_field label_freezer (ascii ''367'') ?a"
      "first_field label_total (ascii ''870'') ?b"
      "first_field label_freezer (ascii ''367'') ?b"
      "first_field label_total (ascii ''870'') ?c"
      "first_field label_fridge (ascii ''503'') ?c"
    by (simp_all add: first_field_scan scan_eval)
  have d: "has_digit (ascii ''870'')" "has_digit (ascii ''503'')" "has_digit (ascii ''367'')"
    by (simp_all add: has_digit_def scan_eval)
  have c: "digit_count (ascii ''870'') \<le> int_max_str_digits"
    "digit_count (ascii ''503'') \<le> int_max_str_digits"
    "digit_count (ascii ''367'') \<le> int_max_str_digits"
    by (simp_all add: digit_count_def scan_eval)
  have n: "number_of (ascii ''870'') = 870" "number_of (ascii ''503'') = 503"
      "number_of (ascii ''367'') = 367"
    by (simp_all add: number_of_def scan_eval)
  from extract_capacities_one_label_missing[of ?a "ascii ''503''" "ascii ''367''" "ascii ''870''"]
    extract_capacities_one_label_missing[of ?b "ascii ''503''" "ascii ''367''" "ascii ''870''"]
    extract_capacities_one_label_missing[of ?c "ascii ''503''" "ascii ''367''" "ascii ''870''"]
    absent fields d c
  show ?thesis by (simp only: n) blast
qed

section \<open>The claim about the pagination advancer\<close>




section \<open>The claims about the crawl loop, the browser session and the result sink\<close>








section \<open>A digit-free number part\<close>

text \<open>
  Claim C10: \<open>extract_capacities\<close> is not total over spec texts. On the text made of the
  total capacity label followed by \<open>: ,L\<close> the group of the pattern matches the single
  comma, a string without a digit; the string left after the commas are removed is empty
  and \<open>int\<close> of it raises \<open>ValueError\<close> instead of giving an absent field. Nothing in
  the program catches the exception: on a page with a candidate that has this spec text
  \<open>parse_current_page\<close> raises it, and so does \<open>main\<close>, right after the first page was
  read, before the browser is quit and before any file is written.
\<close>

theorem extract_capacities_digit_free_raises:
  "re_search (capacity_pattern label_total) spec_digit_free = Some (Some [ch_comma]) \<and>
   extract_capacities spec_digit_free = Inl ValueError \<and>
   parse_current_page (page_env [bad_item]) [] = (Inl ValueError, [PageSource]) \<and>
   main (page_env [bad_item]) [] =
     (Inl ValueError,
      [Install, NewChrome [ascii ''--headless=new'', ascii ''--window-size=1920,1080''],
       ImplicitlyWait 5, Get START_URL, PageSource])"
proof -
  have g: "re_search (capacity_pattern label_total) spec_digit_free = Some (Some [ch_comma])"
    by (simp add: re_search_scan spec_digit_free_def scan_eval)
  have p: "parse_current_page (page_env [bad_item]) h = (Inl ValueError, h @ [PageSource])"
    for h
    by (simp add: parse_current_page_items page_env_simps bad_item_def extract_digit_free)
  have c: "crawl_loop (page_env [bad_item]) 1 [] h = (Inl ValueError, h @ [PageSource])" for h
    by (rule crawl_loop_parse_raise) (simp_all add: MAX_PAGES_def p)
  have m: "main (page_env [bad_item]) [] =
     (Inl ValueError,
      [Install, NewChrome [ascii ''--headless=new'', ascii ''--window-size=1920,1080''],
       ImplicitlyWait 5, Get START_URL, PageSource])"
    by (simp add: main_def bind_def perform_def page_env_simps c)
  from g extract_digit_free p[of "[]"] m show ?thesis by simp
qed

end
